theory Spec2Isabelle
  imports Main
begin

section \<open>JavaScript values\<close>

text \<open>
  The server is a single JavaScript file, \<^verbatim>\<open>suno_callback.js\<close>. Its values are
  dynamically typed, and several of its behaviours depend on that (a property read on
  \<^verbatim>\<open>null\<close> throws, the operator \<^verbatim>\<open>||\<close> falls through on every falsy value), so the
  model has one type of JavaScript values.

  A string is the list of its UTF-16 code units, each a natural number. A number is an
  integer: the program's own numbers (status codes, \<^verbatim>\<open>Date.now()\<close>) are integers, and an
  integer below \<open>2^53\<close> in absolute value is exactly the double that JavaScript holds.
  Numbers with a fraction or an exponent are floating point and have no value in this
  model. An object is the list of its own properties in insertion order.
\<close>

type_synonym jsstring = "nat list"

definition js :: "string \<Rightarrow> jsstring" where
  "js s = map of_char s"

datatype jsval =
    Undefined
  | Null
  | Bool bool
  | Num int
  | Str jsstring
  | Arr "jsval list"
  | Obj "(jsstring \<times> jsval) list"

text \<open>What the program can throw, or let escape from the runtime.\<close>

datatype error = TypeError | SyntaxError | IOError

text \<open>ToBoolean: \<^verbatim>\<open>undefined\<close>, \<^verbatim>\<open>null\<close>, \<^verbatim>\<open>false\<close>, \<^verbatim>\<open>0\<close> and \<^verbatim>\<open>''\<close> are falsy.\<close>

fun truthy :: "jsval \<Rightarrow> bool" where
  "truthy Undefined = False"
| "truthy Null = False"
| "truthy (Bool b) = b"
| "truthy (Num n) = (n \<noteq> 0)"
| "truthy (Str s) = (s \<noteq> [])"
| "truthy (Arr xs) = True"
| "truthy (Obj kvs) = True"

text \<open>\<^verbatim>\<open>a || b\<close>.\<close>

definition js_or :: "jsval \<Rightarrow> jsval \<Rightarrow> jsval" where
  "js_or a b = (if truthy a then a else b)"

text \<open>
  \<^verbatim>\<open>v.name\<close>: a TypeError on \<^verbatim>\<open>undefined\<close> and \<^verbatim>\<open>null\<close>, the own property of an
  object, and \<^verbatim>\<open>undefined\<close> where there is none. The names the program reads
  (\<^verbatim>\<open>callbacks\<close>, \<^verbatim>\<open>id\<close>, \<^verbatim>\<open>payload\<close>, \<^verbatim>\<open>data\<close>, \<^verbatim>\<open>status\<close>, ...) are properties of no
  prototype, so a boolean, a number, a string and an array have none of them.
\<close>

fun get_prop :: "jsval \<Rightarrow> jsstring \<Rightarrow> error + jsval" where
  "get_prop Undefined name = Inl TypeError"
| "get_prop Null name = Inl TypeError"
| "get_prop (Obj kvs) name = Inr (case map_of kvs name of None \<Rightarrow> Undefined | Some v \<Rightarrow> v)"
| "get_prop v name = Inr Undefined"

text \<open>\<^verbatim>\<open>v?.name\<close>: \<^verbatim>\<open>undefined\<close> on \<^verbatim>\<open>undefined\<close> and \<^verbatim>\<open>null\<close>, never an error.\<close>

fun opt_prop :: "jsval \<Rightarrow> jsstring \<Rightarrow> jsval" where
  "opt_prop (Obj kvs) name = (case map_of kvs name of None \<Rightarrow> Undefined | Some v \<Rightarrow> v)"
| "opt_prop v name = Undefined"

section \<open>Strings: whitespace, trim, and the Bearer pattern\<close>

text \<open>
  The characters that \<^verbatim>\<open>\s\<close> matches and that \<^verbatim>\<open>trim()\<close> removes: the white space and
  line terminators of ECMAScript.
\<close>

definition is_space :: "nat \<Rightarrow> bool" where
  "is_space c \<longleftrightarrow>
     (9 \<le> c \<and> c \<le> 13) \<or> c = 32 \<or> c = 160 \<or> c = 5760 \<or> (8192 \<le> c \<and> c \<le> 8202) \<or>
     c = 8232 \<or> c = 8233 \<or> c = 8239 \<or> c = 8287 \<or> c = 12288 \<or> c = 65279"

definition trim :: "jsstring \<Rightarrow> jsstring" where
  "trim s = rev (dropWhile is_space (rev (dropWhile is_space s)))"

text \<open>
  The flag \<^verbatim>\<open>i\<close> of a pattern without the flag \<^verbatim>\<open>u\<close> compares upper-cased characters,
  and never lets a character outside ASCII stand for an ASCII one: the letters of
  \<^verbatim>\<open>Bearer\<close> match themselves in either case and nothing else.
\<close>

definition lower_ascii :: "nat \<Rightarrow> nat" where
  "lower_ascii c = (if 65 \<le> c \<and> c \<le> 90 then c + 32 else c)"

text \<open>
  \<^verbatim>\<open>/Bearer\s+/i\<close> tried at the start of \<open>s\<close>: the input after the match, which takes
  all the white space there is.
\<close>

definition match_bearer :: "jsstring \<Rightarrow> jsstring option" where
  "match_bearer s =
     (if map lower_ascii (take 6 s) = js ''bearer'' \<and>
         (case drop 6 s of [] \<Rightarrow> False | c # _ \<Rightarrow> is_space c)
      then Some (dropWhile is_space (drop 6 s)) else None)"

text \<open>
  \<^verbatim>\<open>s.replace(/Bearer\s+/i, '')\<close>: the pattern has no anchor, so the leftmost match is
  removed wherever it starts; without a match the string is unchanged.
\<close>

fun replace_bearer :: "jsstring \<Rightarrow> jsstring" where
  "replace_bearer [] = []"
| "replace_bearer (c # cs) =
     (case match_bearer (c # cs) of
        Some rest \<Rightarrow> rest
      | None \<Rightarrow> c # replace_bearer cs)"

section \<open>Requests, responses, configuration\<close>

text \<open>
  What a handler reads of an Express request: \<^verbatim>\<open>req.query?.token\<close> (a string, an array
  or an object of the query parser, \<^verbatim>\<open>undefined\<close> when absent), \<^verbatim>\<open>req.headers\<close> (lower-case
  names to strings), \<^verbatim>\<open>req.socket.remoteAddress\<close>, \<^verbatim>\<open>req.body\<close> and \<^verbatim>\<open>req.params.id\<close>.
\<close>

record request =
  query_token :: jsval
  headers :: "jsstring \<rightharpoonup> jsstring"
  remoteAddress :: "jsstring option"
  body :: jsval
  params_id :: jsstring

text \<open>\<^verbatim>\<open>req.headers[name]\<close> and \<^verbatim>\<open>req.socket.remoteAddress\<close>, \<^verbatim>\<open>undefined\<close> when absent.\<close>

definition header :: "request \<Rightarrow> jsstring \<Rightarrow> jsval" where
  "header req name = (case headers req name of None \<Rightarrow> Undefined | Some v \<Rightarrow> Str v)"

definition socket_address :: "request \<Rightarrow> jsval" where
  "socket_address req = (case remoteAddress req of None \<Rightarrow> Undefined | Some a \<Rightarrow> Str a)"

text \<open>
  A response: \<^verbatim>\<open>res.json(v)\<close> sends \<open>Json v\<close>, \<^verbatim>\<open>res.send(text)\<close> sends \<open>Html text\<close>; the
  status is 200 unless \<^verbatim>\<open>res.status\<close> set it.
\<close>

datatype content = Json jsval | Html jsstring

record response =
  status :: nat
  sent :: content

text \<open>\<^verbatim>\<open>const AUTH_TOKEN = process.env.AUTH_TOKEN || ''\<close>.\<close>

definition AUTH_TOKEN :: "jsstring option \<Rightarrow> jsstring" where
  "AUTH_TOKEN env_var = (case env_var of None \<Rightarrow> [] | Some t \<Rightarrow> t)"

section \<open>The auth guard\<close>

text \<open>
  \<^verbatim>\<open>checkAuth(req, res, next)\<close> with the configured token as a parameter: \<open>None\<close> when it
  calls \<^verbatim>\<open>next()\<close>, the response it sends otherwise.
\<close>

definition unauthorized :: response where
  "unauthorized =
     \<lparr>status = 401,
      sent = Json (Obj [(js ''code'', Num 401),
                        (js ''msg'', Str (js ''Unauthorized: invalid or missing token''))])\<rparr>"

definition auth_header_text :: "request \<Rightarrow> jsstring" where
  "auth_header_text req =
     (case js_or (header req (js ''authorization'')) (Str []) of Str a \<Rightarrow> a | _ \<Rightarrow> [])"

definition checkAuth :: "jsstring \<Rightarrow> request \<Rightarrow> response option" where
  "checkAuth token req =
     (if token = [] then None
      else
        let q = query_token req;
            h = trim (replace_bearer (auth_header_text req))
        in if truthy q \<and> q = Str token then None
           else if h \<noteq> [] \<and> h = token then None
           else Some unauthorized)"

text \<open>
  The guard as the specification words it: the header loses a \<^emph>\<open>leading\<close> Bearer prefix
  (the word in either case and the white space after it), is trimmed, and is compared
  with the secret.
\<close>

definition spec_strip_bearer :: "jsstring \<Rightarrow> jsstring" where
  "spec_strip_bearer h = (case match_bearer h of Some rest \<Rightarrow> rest | None \<Rightarrow> h)"

definition spec_passes :: "jsstring \<Rightarrow> request \<Rightarrow> bool" where
  "spec_passes token req \<longleftrightarrow>
     token = [] \<or> query_token req = Str token \<or>
     trim (spec_strip_bearer (auth_header_text req)) = token"

section \<open>JSON text\<close>

text \<open>
  \<^verbatim>\<open>JSON.stringify(data, null, 2)\<close> and \<^verbatim>\<open>JSON.parse\<close> belong to the runtime, not to the
  program; they are modelled from ECMAScript, on strings of code units. The file system
  holds the text that was written, so encoding to and from UTF-8 is left out: the text
  that \<^verbatim>\<open>JSON.stringify\<close> produces has no lone surrogate and survives it unchanged.
\<close>

subsection \<open>Serialisation\<close>

definition hex_digit :: "nat \<Rightarrow> nat" where
  "hex_digit d = (if d < 10 then 48 + d else 87 + d)"

text \<open>A backslash, \<^verbatim>\<open>u\<close> and four lower-case hexadecimal digits.\<close>

definition unicode_escape :: "nat \<Rightarrow> jsstring" where
  "unicode_escape c =
     [92, 117, hex_digit (c div 4096 mod 16), hex_digit (c div 256 mod 16),
      hex_digit (c div 16 mod 16), hex_digit (c mod 16)]"

definition is_lead :: "nat \<Rightarrow> bool" where
  "is_lead c \<longleftrightarrow> 55296 \<le> c \<and> c \<le> 56319"

definition is_trail :: "nat \<Rightarrow> bool" where
  "is_trail c \<longleftrightarrow> 56320 \<le> c \<and> c \<le> 57343"

text \<open>
  One code unit inside a string literal: the short escapes for backspace, tab, line
  feed, form feed, carriage return, the double quote and the backslash; a \<^verbatim>\<open>\u\<close> escape
  for the other control characters and for a surrogate that stands alone; the unit
  itself otherwise.
\<close>

definition quote_unit :: "nat \<Rightarrow> jsstring" where
  "quote_unit c =
     (if c = 8 then [92, 98]
      else if c = 9 then [92, 116]
      else if c = 10 then [92, 110]
      else if c = 12 then [92, 102]
      else if c = 13 then [92, 114]
      else if c = 34 then [92, 34]
      else if c = 92 then [92, 92]
      else if c < 32 \<or> is_lead c \<or> is_trail c then unicode_escape c
      else [c])"

fun quote_units :: "jsstring \<Rightarrow> jsstring" where
  "quote_units [] = []"
| "quote_units [c] = quote_unit c"
| "quote_units (c # d # cs) =
     (if is_lead c \<and> is_trail d then c # d # quote_units cs
      else quote_unit c @ quote_units (d # cs))"

definition QuoteJSONString :: "jsstring \<Rightarrow> jsstring" where
  "QuoteJSONString s = [34] @ quote_units s @ [34]"

text \<open>The decimal digits of a natural number, as \<^verbatim>\<open>Number.prototype.toString\<close> prints an integer.\<close>

fun digits :: "nat \<Rightarrow> jsstring" where
  "digits n = (if n < 10 then [48 + n] else digits (n div 10) @ [48 + n mod 10])"

declare digits.simps [simp del]

definition number_text :: "int \<Rightarrow> jsstring" where
  "number_text i = (if i < 0 then 45 # digits (nat (- i)) else digits (nat i))"

fun join :: "jsstring \<Rightarrow> jsstring list \<Rightarrow> jsstring" where
  "join sep [] = []"
| "join sep [x] = x"
| "join sep (x # y # ys) = x @ sep @ join sep (y # ys)"

definition spaces :: "nat \<Rightarrow> jsstring" where
  "spaces n = replicate n 32"

text \<open>
  SerializeJSONProperty with the gap of two spaces, at the indentation \<open>ind\<close>. An
  \<^verbatim>\<open>undefined\<close> element of an array is printed as \<^verbatim>\<open>null\<close>; a property whose value is
  \<^verbatim>\<open>undefined\<close> is left out. \<open>ser_elements\<close> and \<open>ser_members\<close> are the lists that
  ECMAScript calls \<^verbatim>\<open>partial\<close>.
\<close>

fun ser :: "nat \<Rightarrow> jsval \<Rightarrow> jsstring"
  and ser_elements :: "nat \<Rightarrow> jsval list \<Rightarrow> jsstring list"
  and ser_members :: "nat \<Rightarrow> (jsstring \<times> jsval) list \<Rightarrow> jsstring list"
where
  "ser ind Undefined = js ''null''"
| "ser ind Null = js ''null''"
| "ser ind (Bool b) = (if b then js ''true'' else js ''false'')"
| "ser ind (Num i) = number_text i"
| "ser ind (Str s) = QuoteJSONString s"
| "ser ind (Arr xs) =
     (if xs = [] then js ''[]''
      else [91, 10] @ spaces (ind + 2) @
           join ([44, 10] @ spaces (ind + 2)) (ser_elements (ind + 2) xs) @
           [10] @ spaces ind @ [93])"
| "ser ind (Obj kvs) =
     (if ser_members (ind + 2) kvs = [] then js ''{}''
      else [123, 10] @ spaces (ind + 2) @
           join ([44, 10] @ spaces (ind + 2)) (ser_members (ind + 2) kvs) @
           [10] @ spaces ind @ [125])"
| "ser_elements ind [] = []"
| "ser_elements ind (x # xs) = ser ind x # ser_elements ind xs"
| "ser_members ind [] = []"
| "ser_members ind ((k, v) # kvs) =
     (if v = Undefined then ser_members ind kvs
      else (QuoteJSONString k @ [58, 32] @ ser ind v) # ser_members ind kvs)"

text \<open>\<^verbatim>\<open>JSON.stringify(v, null, 2)\<close>: \<^verbatim>\<open>undefined\<close> for \<^verbatim>\<open>undefined\<close>, the text otherwise.\<close>

definition JSON_stringify :: "jsval \<Rightarrow> jsstring option" where
  "JSON_stringify v = (if v = Undefined then None else Some (ser 0 v))"

subsection \<open>Parsing\<close>

text \<open>The white space of JSON: tab, line feed, carriage return, space.\<close>

definition is_ws :: "nat \<Rightarrow> bool" where
  "is_ws c \<longleftrightarrow> c = 9 \<or> c = 10 \<or> c = 13 \<or> c = 32"

definition skip_ws :: "jsstring \<Rightarrow> jsstring" where
  "skip_ws s = dropWhile is_ws s"

definition hex_value :: "nat \<Rightarrow> nat option" where
  "hex_value c =
     (if 48 \<le> c \<and> c \<le> 57 then Some (c - 48)
      else if 97 \<le> c \<and> c \<le> 102 then Some (c - 87)
      else if 65 \<le> c \<and> c \<le> 70 then Some (c - 55)
      else None)"

fun hex4 :: "jsstring \<Rightarrow> nat option" where
  "hex4 [a, b, c, d] =
     (case (hex_value a, hex_value b, hex_value c, hex_value d) of
        (Some x, Some y, Some z, Some w) \<Rightarrow> Some (4096 * x + 256 * y + 16 * z + w)
      | _ \<Rightarrow> None)"
| "hex4 s = None"

text \<open>The character that a one-letter escape stands for.\<close>

definition unescape :: "nat \<Rightarrow> nat option" where
  "unescape e =
     (if e = 34 then Some 34
      else if e = 92 then Some 92
      else if e = 47 then Some 47
      else if e = 98 then Some 8
      else if e = 102 then Some 12
      else if e = 110 then Some 10
      else if e = 114 then Some 13
      else if e = 116 then Some 9
      else None)"

definition cons_result :: "'a \<Rightarrow> ('a list \<times> 'b) option \<Rightarrow> ('a list \<times> 'b) option" where
  "cons_result x r = (case r of None \<Rightarrow> None | Some (xs, rest) \<Rightarrow> Some (x # xs, rest))"

text \<open>
  The characters of a string literal after its opening quote, up to the closing one:
  the string, and the input after the literal.
\<close>

fun parse_chars :: "jsstring \<Rightarrow> (jsstring \<times> jsstring) option" where
  "parse_chars [] = None"
| "parse_chars (c # cs) =
     (if c = 34 then Some ([], cs)
      else if c = 92 then
        (case cs of
           [] \<Rightarrow> None
         | e # r \<Rightarrow>
             if e = 117 then
               (case hex4 (take 4 r) of
                  None \<Rightarrow> None
                | Some u \<Rightarrow> cons_result u (parse_chars (drop 4 r)))
             else
               (case unescape e of
                  None \<Rightarrow> None
                | Some u \<Rightarrow> cons_result u (parse_chars r)))
      else if c < 32 then None
      else cons_result c (parse_chars cs))"

definition is_digit :: "nat \<Rightarrow> bool" where
  "is_digit c \<longleftrightarrow> 48 \<le> c \<and> c \<le> 57"

definition digits_value :: "jsstring \<Rightarrow> nat" where
  "digits_value ds = foldl (\<lambda>a c. 10 * a + (c - 48)) 0 ds"

text \<open>
  A number: an optional minus sign and an integer part without a superfluous leading
  zero. A fraction or an exponent after it makes a floating-point number, which the
  model does not have: such a literal is not parsed (\<open>None\<close>).
\<close>

definition parse_number :: "jsstring \<Rightarrow> (jsval \<times> jsstring) option" where
  "parse_number s =
     (let neg = (s \<noteq> [] \<and> hd s = 45);
          t = (if neg then tl s else s);
          ds = takeWhile is_digit t;
          rest = dropWhile is_digit t
      in if ds = [] then None
         else if hd ds = 48 \<and> length ds > 1 then None
         else if rest \<noteq> [] \<and> (hd rest = 46 \<or> hd rest = 101 \<or> hd rest = 69) then None
         else Some (Num (if neg then - int (digits_value ds) else int (digits_value ds)), rest))"

text \<open>
  A property defined again keeps its place and takes the new value, as
  \<^verbatim>\<open>JSON.parse\<close> does for a repeated name.
\<close>

fun obj_put :: "(jsstring \<times> jsval) list \<Rightarrow> jsstring \<Rightarrow> jsval \<Rightarrow> (jsstring \<times> jsval) list" where
  "obj_put [] k v = [(k, v)]"
| "obj_put ((k', v') # kvs) k v =
     (if k' = k then (k, v) # kvs else (k', v') # obj_put kvs k v)"

definition mk_obj :: "(jsstring \<times> jsval) list \<Rightarrow> jsval" where
  "mk_obj kvs = Obj (foldl (\<lambda>acc (k, v). obj_put acc k v) [] kvs)"

definition starts_with :: "jsstring \<Rightarrow> jsstring \<Rightarrow> bool" where
  "starts_with p s \<longleftrightarrow> take (length p) s = p"

text \<open>
  The recursive-descent parser. Its first argument bounds the nesting and the number of
  elements it may descend into; \<open>JSON_parse\<close> gives it the length of the text, which is
  never used up, since every descent has consumed a character. \<open>parse_value\<close> starts at
  the first character of a value and returns the input after it; \<open>parse_elements\<close> and
  \<open>parse_members\<close> start at the first element or member of a non-empty array or object
  and end after the closing bracket.
\<close>

fun parse_value :: "nat \<Rightarrow> jsstring \<Rightarrow> (jsval \<times> jsstring) option"
  and parse_elements :: "nat \<Rightarrow> jsstring \<Rightarrow> (jsval list \<times> jsstring) option"
  and parse_members :: "nat \<Rightarrow> jsstring \<Rightarrow> ((jsstring \<times> jsval) list \<times> jsstring) option"
where
  "parse_value 0 s = None"
| "parse_value (Suc n) s =
     (case s of
        [] \<Rightarrow> None
      | c # cs \<Rightarrow>
          if c = 123 then
            (case skip_ws cs of
               [] \<Rightarrow> None
             | d # ds \<Rightarrow>
                 if d = 125 then Some (Obj [], ds)
                 else (case parse_members n (d # ds) of
                         None \<Rightarrow> None
                       | Some (kvs, rest) \<Rightarrow> Some (mk_obj kvs, rest)))
          else if c = 91 then
            (case skip_ws cs of
               [] \<Rightarrow> None
             | d # ds \<Rightarrow>
                 if d = 93 then Some (Arr [], ds)
                 else (case parse_elements n (d # ds) of
                         None \<Rightarrow> None
                       | Some (xs, rest) \<Rightarrow> Some (Arr xs, rest)))
          else if c = 34 then
            (case parse_chars cs of
               None \<Rightarrow> None
             | Some (str, rest) \<Rightarrow> Some (Str str, rest))
          else if starts_with (js ''true'') s then Some (Bool True, drop 4 s)
          else if starts_with (js ''false'') s then Some (Bool False, drop 5 s)
          else if starts_with (js ''null'') s then Some (Null, drop 4 s)
          else parse_number s)"
| "parse_elements 0 s = None"
| "parse_elements (Suc n) s =
     (case parse_value (Suc n) s of
        None \<Rightarrow> None
      | Some (x, rest) \<Rightarrow>
          (case skip_ws rest of
             [] \<Rightarrow> None
           | c # cs \<Rightarrow>
               if c = 93 then Some ([x], cs)
               else if c = 44 then cons_result x (parse_elements n (skip_ws cs))
               else None))"
| "parse_members 0 s = None"
| "parse_members (Suc n) s =
     (case s of
        [] \<Rightarrow> None
      | q # s1 \<Rightarrow>
          if q \<noteq> 34 then None
          else
            (case parse_chars s1 of
               None \<Rightarrow> None
             | Some (k, s2) \<Rightarrow>
                 (case skip_ws s2 of
                    [] \<Rightarrow> None
                  | colon # s3 \<Rightarrow>
                      if colon \<noteq> 58 then None
                      else
                        (case parse_value (Suc n) (skip_ws s3) of
                           None \<Rightarrow> None
                         | Some (v, s4) \<Rightarrow>
                             (case skip_ws s4 of
                                [] \<Rightarrow> None
                              | c # cs \<Rightarrow>
                                  if c = 125 then Some ([(k, v)], cs)
                                  else if c = 44 then
                                    cons_result (k, v) (parse_members n (skip_ws cs))
                                  else None)))))"

text \<open>
  \<^verbatim>\<open>JSON.parse(text)\<close>: one value between optional white space, a SyntaxError for
  anything else.
\<close>

definition JSON_parse :: "jsstring \<Rightarrow> error + jsval" where
  "JSON_parse text =
     (case parse_value (length text) (skip_ws text) of
        None \<Rightarrow> Inl SyntaxError
      | Some (v, rest) \<Rightarrow> if skip_ws rest = [] then Inr v else Inl SyntaxError)"

section \<open>The store\<close>

text \<open>
  The one file of the program, \<^verbatim>\<open>callbacks-db.json\<close>: its text, or \<open>None\<close> when there is
  no file that can be read. \<^verbatim>\<open>fs.readFileSync\<close> throws on \<open>None\<close>; \<^verbatim>\<open>fs.writeFileSync\<close>
  replaces the text and, given something that is not a string, throws a TypeError.
  A write that the operating system refuses is outside the model.
\<close>

record fs =
  db_file :: "jsstring option"

definition readFileSync :: "fs \<Rightarrow> error + jsstring" where
  "readFileSync st = (case db_file st of None \<Rightarrow> Inl IOError | Some raw \<Rightarrow> Inr raw)"

definition writeFileSync :: "jsstring option \<Rightarrow> fs \<Rightarrow> error + fs" where
  "writeFileSync data st =
     (case data of None \<Rightarrow> Inl TypeError | Some text \<Rightarrow> Inr (st\<lparr>db_file := Some text\<rparr>))"

definition empty_doc :: jsval where
  "empty_doc = Obj [(js ''callbacks'', Arr [])]"

text \<open>\<^verbatim>\<open>initDb()\<close>: an absent file is created with the empty document.\<close>

definition initDb :: "fs \<Rightarrow> error + fs" where
  "initDb st =
     (if db_file st = None then writeFileSync (JSON_stringify empty_doc) st else Inr st)"

text \<open>
  \<^verbatim>\<open>readDb()\<close>: the body of the \<^verbatim>\<open>try\<close> reads and parses; the \<^verbatim>\<open>catch\<close> turns whatever
  it threw into the empty document.
\<close>

definition readDb_try :: "fs \<Rightarrow> error + jsval" where
  "readDb_try st = (case readFileSync st of Inl e \<Rightarrow> Inl e | Inr raw \<Rightarrow> JSON_parse raw)"

definition readDb :: "fs \<Rightarrow> error + jsval" where
  "readDb st = (case readDb_try st of Inl e \<Rightarrow> Inr empty_doc | Inr v \<Rightarrow> Inr v)"

definition writeDb :: "jsval \<Rightarrow> fs \<Rightarrow> error + fs" where
  "writeDb data st = writeFileSync (JSON_stringify data) st"

section \<open>Receiving a callback\<close>

text \<open>
  What the handler takes from the runtime besides the request:
  \<^verbatim>\<open>new Date().toISOString()\<close>, \<^verbatim>\<open>Date.now()\<close> and \<^verbatim>\<open>Math.random().toString(16)\<close>.
\<close>

record env =
  clock_iso :: jsstring
  clock_ms :: nat
  random16 :: jsstring

definition new_id :: "env \<Rightarrow> jsstring" where
  "new_id e = digits (clock_ms e) @ js ''_'' @ drop 2 (random16 e)"

definition new_record :: "env \<Rightarrow> request \<Rightarrow> jsval" where
  "new_record e req =
     Obj [(js ''id'', Str (new_id e)),
          (js ''receivedAt'', Str (clock_iso e)),
          (js ''ip'', js_or (js_or (header req (js ''x-forwarded-for'')) (socket_address req)) Null),
          (js ''userAgent'', js_or (header req (js ''user-agent'')) Null),
          (js ''payload'', js_or (body req) (Obj []))]"

text \<open>
  \<^verbatim>\<open>db.callbacks.unshift(record); db.callbacks = db.callbacks.slice(0, 500)\<close>: a TypeError
  when \<^verbatim>\<open>db\<close> is \<^verbatim>\<open>null\<close> and when \<^verbatim>\<open>db.callbacks\<close> is not an array (\<^verbatim>\<open>unshift\<close> is then
  read from \<^verbatim>\<open>undefined\<close> or \<^verbatim>\<open>null\<close>, or is no function).
\<close>

definition append_record :: "jsval \<Rightarrow> jsval \<Rightarrow> error + jsval" where
  "append_record db record =
     (case get_prop db (js ''callbacks'') of
        Inl e \<Rightarrow> Inl e
      | Inr (Arr xs) \<Rightarrow>
          (case db of
             Obj kvs \<Rightarrow> Inr (Obj (obj_put kvs (js ''callbacks'') (Arr (take 500 (record # xs)))))
           | _ \<Rightarrow> Inl TypeError)
      | Inr _ \<Rightarrow> Inl TypeError)"

definition ok_response :: response where
  "ok_response = \<lparr>status = 200, sent = Json (Obj [(js ''code'', Num 200), (js ''msg'', Str (js ''ok''))])\<rparr>"

text \<open>
  The handler of \<^verbatim>\<open>POST /suno/callback\<close>, after the guard. An uncaught exception is
  \<open>Inl\<close>; it leaves the file as it was, since the write is the last step that can throw.
  The console line written after the response is inside a \<^verbatim>\<open>try\<close> with an empty
  \<^verbatim>\<open>catch\<close>, changes neither the response nor the file, and is not modelled.
\<close>

definition post_callback :: "env \<Rightarrow> request \<Rightarrow> fs \<Rightarrow> error + (response \<times> fs)" where
  "post_callback e req st =
     (case readDb st of
        Inl err \<Rightarrow> Inl err
      | Inr db \<Rightarrow>
          (case append_record db (new_record e req) of
             Inl err \<Rightarrow> Inl err
           | Inr db' \<Rightarrow>
               (case writeDb db' st of
                  Inl err \<Rightarrow> Inl err
                | Inr st' \<Rightarrow> Inr (ok_response, st'))))"

text \<open>A route behind \<^verbatim>\<open>checkAuth\<close>: the handler runs only when the guard calls \<^verbatim>\<open>next()\<close>.\<close>

definition guarded ::
  "jsstring \<Rightarrow> request \<Rightarrow> fs \<Rightarrow> error + (response \<times> fs) \<Rightarrow> error + (response \<times> fs)" where
  "guarded token req st handler =
     (case checkAuth token req of Some r \<Rightarrow> Inr (r, st) | None \<Rightarrow> handler)"

section \<open>Queries\<close>

definition get_callbacks :: "fs \<Rightarrow> error + (response \<times> fs)" where
  "get_callbacks st =
     (case readDb st of
        Inl err \<Rightarrow> Inl err
      | Inr db \<Rightarrow>
          (case get_prop db (js ''callbacks'') of
             Inl err \<Rightarrow> Inl err
           | Inr cbs \<Rightarrow>
               Inr (\<lparr>status = 200,
                     sent = Json (Obj [(js ''code'', Num 200), (js ''msg'', Str (js ''ok'')),
                                       (js ''data'', cbs)])\<rparr>, st)))"

text \<open>
  \<^verbatim>\<open>xs.find((c) => c.id === i)\<close>: the first element whose \<^verbatim>\<open>id\<close> is the string \<open>i\<close>,
  \<^verbatim>\<open>undefined\<close> when there is none, a TypeError at a \<^verbatim>\<open>null\<close> element met before.
\<close>

fun find_by_id :: "jsval list \<Rightarrow> jsstring \<Rightarrow> error + jsval" where
  "find_by_id [] i = Inr Undefined"
| "find_by_id (c # cs) i =
     (case get_prop c (js ''id'') of
        Inl e \<Rightarrow> Inl e
      | Inr v \<Rightarrow> if v = Str i then Inr c else find_by_id cs i)"

definition not_found :: response where
  "not_found = \<lparr>status = 404, sent = Json (Obj [(js ''code'', Num 404), (js ''msg'', Str (js ''not found''))])\<rparr>"

definition found_response :: "jsval \<Rightarrow> response" where
  "found_response c =
     \<lparr>status = 200,
      sent = Json (Obj [(js ''code'', Num 200), (js ''msg'', Str (js ''ok'')), (js ''data'', c)])\<rparr>"

definition get_callback_by_id :: "request \<Rightarrow> fs \<Rightarrow> error + (response \<times> fs)" where
  "get_callback_by_id req st =
     (case readDb st of
        Inl err \<Rightarrow> Inl err
      | Inr db \<Rightarrow>
          (case get_prop db (js ''callbacks'') of
             Inl err \<Rightarrow> Inl err
           | Inr (Arr xs) \<Rightarrow>
               (case find_by_id xs (params_id req) of
                  Inl err \<Rightarrow> Inl err
                | Inr found \<Rightarrow>
                    if \<not> truthy found then Inr (not_found, st)
                    else Inr (found_response found, st))
           | Inr _ \<Rightarrow> Inl TypeError))"

section \<open>The dashboard\<close>

text \<open>
  ToString, as a template literal applies it to an interpolated value. An array is its
  elements joined by commas, with \<^verbatim>\<open>null\<close> and \<^verbatim>\<open>undefined\<close> elements empty. An object
  is \<^verbatim>\<open>[object Object]\<close> through \<^verbatim>\<open>Object.prototype.toString\<close>; when it has an own
  property \<^verbatim>\<open>toString\<close> (data, so not callable) the conversion finds no method that
  returns a primitive and throws a TypeError.
\<close>

fun to_string :: "jsval \<Rightarrow> error + jsstring"
  and to_strings :: "jsval list \<Rightarrow> error + jsstring list"
where
  "to_string Undefined = Inr (js ''undefined'')"
| "to_string Null = Inr (js ''null'')"
| "to_string (Bool b) = Inr (if b then js ''true'' else js ''false'')"
| "to_string (Num i) = Inr (number_text i)"
| "to_string (Str s) = Inr s"
| "to_string (Arr xs) = (case to_strings xs of Inl e \<Rightarrow> Inl e | Inr ts \<Rightarrow> Inr (join (js '','') ts))"
| "to_string (Obj kvs) =
     (if map_of kvs (js ''toString'') \<noteq> None then Inl TypeError else Inr (js ''[object Object]''))"
| "to_strings [] = Inr []"
| "to_strings (x # xs) =
     (case (if x = Undefined \<or> x = Null then Inr [] else to_string x) of
        Inl e \<Rightarrow> Inl e
      | Inr t \<Rightarrow> (case to_strings xs of Inl e \<Rightarrow> Inl e | Inr ts \<Rightarrow> Inr (t # ts)))"

text \<open>The fields that a table row shows, probed in the payload in the source's order.\<close>

definition row_status :: "jsval \<Rightarrow> jsval" where
  "row_status p =
     js_or (js_or (js_or (opt_prop (opt_prop p (js ''data'')) (js ''status''))
                         (opt_prop (opt_prop (opt_prop p (js ''data'')) (js ''response'')) (js ''status'')))
                  (opt_prop p (js ''msg'')))
           (Str (js ''unknown''))"

text \<open>The placeholder of the source: the three code units U+201A, U+00C4, U+00EE.\<close>

definition dash :: jsstring where
  "dash = [8218, 196, 238]"

definition row_taskId :: "jsval \<Rightarrow> jsval" where
  "row_taskId p =
     js_or (js_or (js_or (opt_prop (opt_prop p (js ''data'')) (js ''taskId''))
                         (opt_prop p (js ''taskId'')))
                  (opt_prop (opt_prop p (js ''data'')) (js ''videoTaskId'')))
           (Str dash)"

definition row_downloadUrl :: "jsval \<Rightarrow> jsval" where
  "row_downloadUrl p =
     js_or (js_or (js_or (js_or (js_or (js_or
       (opt_prop (opt_prop p (js ''data'')) (js ''downloadUrl''))
       (opt_prop (opt_prop p (js ''data'')) (js ''mp4Url'')))
       (opt_prop (opt_prop p (js ''data'')) (js ''url'')))
       (opt_prop (opt_prop p (js ''data'')) (js ''fileUrl'')))
       (opt_prop (opt_prop p (js ''data'')) (js ''videoUrl'')))
       (opt_prop (opt_prop (opt_prop p (js ''data'')) (js ''response'')) (js ''downloadUrl'')))
       (Str [])"

text \<open>The row template, with the five interpolated texts as arguments.\<close>

definition row_html :: "jsstring \<Rightarrow> jsstring \<Rightarrow> jsstring \<Rightarrow> jsstring \<Rightarrow> jsstring \<Rightarrow> jsstring" where
  \<open>row_html i r s t v =
     js ''<tr>'' @ [10] @
     js ''      <td style="font-family:monospace">'' @ i @ js ''</td>'' @ [10] @
     js ''      <td>'' @ r @ js ''</td>'' @ [10] @
     js ''      <td>'' @ s @ js ''</td>'' @ [10] @
     js ''      <td style="font-family:monospace">'' @ t @ js ''</td>'' @ [10] @
     js ''      <td>'' @ v @ js ''</td>'' @ [10] @
     js ''    </tr>''\<close>

definition link_html :: "jsstring \<Rightarrow> jsstring" where
  \<open>link_html u = js ''<a href="'' @ u @ js ''" target="_blank">download</a>''\<close>

text \<open>
  One row: \<^verbatim>\<open>c.payload\<close>, \<^verbatim>\<open>c.id\<close> and \<^verbatim>\<open>c.receivedAt\<close> are plain property reads (a
  TypeError when \<open>c\<close> is \<^verbatim>\<open>null\<close>), and every interpolation converts its value to a string.
\<close>

definition render_row :: "jsval \<Rightarrow> error + jsstring" where
  "render_row c =
     (case get_prop c (js ''payload'') of
        Inl e \<Rightarrow> Inl e
      | Inr p \<Rightarrow>
     (case get_prop c (js ''id'') of
        Inl e \<Rightarrow> Inl e
      | Inr cid \<Rightarrow>
     (case to_string cid of
        Inl e \<Rightarrow> Inl e
      | Inr i \<Rightarrow>
     (case get_prop c (js ''receivedAt'') of
        Inl e \<Rightarrow> Inl e
      | Inr rcv \<Rightarrow>
     (case to_string rcv of
        Inl e \<Rightarrow> Inl e
      | Inr r \<Rightarrow>
     (case to_string (row_status p) of
        Inl e \<Rightarrow> Inl e
      | Inr s \<Rightarrow>
     (case to_string (row_taskId p) of
        Inl e \<Rightarrow> Inl e
      | Inr t \<Rightarrow>
     (if truthy (row_downloadUrl p)
      then (case to_string (row_downloadUrl p) of
              Inl e \<Rightarrow> Inl e
            | Inr u \<Rightarrow> Inr (row_html i r s t (link_html u)))
      else Inr (row_html i r s t dash)))))))))"

fun render_rows :: "jsval list \<Rightarrow> error + jsstring list" where
  "render_rows [] = Inr []"
| "render_rows (c # cs) =
     (case render_row c of
        Inl e \<Rightarrow> Inl e
      | Inr row \<Rightarrow> (case render_rows cs of Inl e \<Rightarrow> Inl e | Inr rows \<Rightarrow> Inr (row # rows)))"

text \<open>The page around the rows, line by line as in the source.\<close>

definition text_lines :: "string list \<Rightarrow> jsstring" where
  "text_lines ls = join [10] (map js ls)"

definition page_head :: jsstring where
  \<open>page_head =
     text_lines [
      '''',
      ''<!doctype html>'',
      ''<html>'',
      ''<head>'',
      ''  <meta charset="utf-8" />'',
      ''  <meta name="viewport" content="width=device-width,initial-scale=1" />'',
      ''  <title>Suno Callback Dashboard</title>'',
      ''  <style>'',
      ''    body { font-family: system-ui, -apple-system, Segoe UI, Roboto, Arial; margin: 24px; }'',
      ''    table { border-collapse: collapse; width: 100%; }'',
      ''    th, td { border: 1px solid #e5e7eb; padding: 8px 10px; text-align: left; }'',
      ''    th { background: #f3f4f6; }'',
      ''    tr:nth-child(even) { background: #fafafa; }'',
      ''    code { background: #f3f4f6; padding: 2px 4px; border-radius: 4px; }'',
      ''  </style>'',
      ''</head>'',
      ''<body>'']
     @ [10] @ js ''  <h1>'' @ [63743, 252, 238, 238] @ js '' Suno Callback Dashboard</h1>'' @ [10] @
     text_lines [
      ''  <p>Latest callbacks (max 50). Protect the endpoint with <code>AUTH_TOKEN</code> in your <code>.env</code>, e.g. use <code>?token=YOUR_TOKEN</code>.</p>'',
      '''',
      ''  <h3>Endpoints</h3>'',
      ''  <ul>'',
      ''    <li><code>POST /suno/callback?token=YOUR_TOKEN</code></li>'',
      ''    <li><code>GET /callbacks?token=YOUR_TOKEN</code></li>'',
      ''    <li><code>GET /callbacks/:id?token=YOUR_TOKEN</code></li>'',
      ''  </ul>'',
      '''',
      ''  <h3>Recent</h3>'',
      ''  <table>'',
      ''    <thead>'',
      ''      <tr>'',
      ''        <th>ID</th>'',
      ''        <th>Received</th>'',
      ''        <th>Status</th>'',
      ''        <th>TaskID</th>'',
      ''        <th>Video</th>'',
      ''      </tr>'',
      ''    </thead>'',
      ''    <tbody>'']
     @ [10] @ js ''      ''\<close>

definition page_tail :: jsstring where
  \<open>page_tail =
     [10] @
     text_lines [
      ''    </tbody>'',
      ''  </table>'',
      ''</body>'',
      ''</html>'',
      ''  '']\<close>

definition no_data :: jsstring where
  \<open>no_data = js ''<tr><td colspan="5">No data</td></tr>''\<close>

definition page :: "jsstring \<Rightarrow> jsstring" where
  "page rows = page_head @ (if rows \<noteq> [] then rows else no_data) @ page_tail"

text \<open>
  The handler of \<^verbatim>\<open>GET /\<close>: \<^verbatim>\<open>db.callbacks.slice(0, 50).map(...).join('\n')\<close> inside the
  page.
\<close>

definition dashboard :: "fs \<Rightarrow> error + (response \<times> fs)" where
  "dashboard st =
     (case readDb st of
        Inl err \<Rightarrow> Inl err
      | Inr db \<Rightarrow>
          (case get_prop db (js ''callbacks'') of
             Inl err \<Rightarrow> Inl err
           | Inr (Arr xs) \<Rightarrow>
               (case render_rows (take 50 xs) of
                  Inl err \<Rightarrow> Inl err
                | Inr rows \<Rightarrow> Inr (\<lparr>status = 200, sent = Html (page (join [10] rows))\<rparr>, st))
           | Inr _ \<Rightarrow> Inl TypeError))"

section \<open>The routes\<close>

text \<open>
  The four registrations of the source: \<^verbatim>\<open>app.post('/suno/callback', checkAuth, ...)\<close>,
  \<^verbatim>\<open>app.get('/callbacks', checkAuth, ...)\<close>, \<^verbatim>\<open>app.get('/callbacks/:id', checkAuth, ...)\<close>
  and \<^verbatim>\<open>app.get('/', ...)\<close>, the last without the guard.
\<close>

datatype route = POST_suno_callback | GET_callbacks | GET_callbacks_id | GET_root

fun serve :: "jsstring \<Rightarrow> env \<Rightarrow> route \<Rightarrow> request \<Rightarrow> fs \<Rightarrow> error + (response \<times> fs)" where
  "serve token e POST_suno_callback req st = guarded token req st (post_callback e req st)"
| "serve token e GET_callbacks req st = guarded token req st (get_callbacks st)"
| "serve token e GET_callbacks_id req st = guarded token req st (get_callback_by_id req st)"
| "serve token e GET_root req st = dashboard st"

section \<open>Notions used in the statements\<close>

text \<open>
  The records that the handlers see: \<^verbatim>\<open>readDb().callbacks\<close> when it is an array, \<open>None\<close>
  when the file holds something else.
\<close>

definition stored_callbacks :: "fs \<Rightarrow> jsval list option" where
  "stored_callbacks st =
     (case readDb st of
        Inl e \<Rightarrow> None
      | Inr db \<Rightarrow> (case get_prop db (js ''callbacks'') of Inr (Arr xs) \<Rightarrow> Some xs | _ \<Rightarrow> None))"

text \<open>
  A JSON value: no \<^verbatim>\<open>undefined\<close> anywhere in it, and no object with a name twice. These
  are the values that \<^verbatim>\<open>JSON.parse\<close> returns and the body parsers of Express hand over.
\<close>

fun is_json :: "jsval \<Rightarrow> bool" where
  "is_json Undefined = False"
| "is_json (Arr xs) = list_all is_json xs"
| "is_json (Obj kvs) = (distinct (map fst kvs) \<and> list_all (\<lambda>kv. is_json (snd kv)) kvs)"
| "is_json v = True"

text \<open>\<^verbatim>\<open>req.body\<close> is absent or a JSON value.\<close>

definition request_ok :: "request \<Rightarrow> bool" where
  "request_ok req \<longleftrightarrow> body req = Undefined \<or> is_json (body req)"

text \<open>
  For the proof that parsing undoes serialisation: what may follow a serialised value
  (the end of the text, a line feed, a comma), what may follow a number for the parser
  to stop there, the first character of a value, the separator of elements, and the
  three statements proved together by induction.
\<close>

definition number_end :: "jsstring \<Rightarrow> bool" where
  "number_end r \<longleftrightarrow>
     (case r of [] \<Rightarrow> True | c # _ \<Rightarrow> \<not> is_digit c \<and> c \<noteq> 46 \<and> c \<noteq> 101 \<and> c \<noteq> 69)"

definition value_end :: "jsstring \<Rightarrow> bool" where
  "value_end r \<longleftrightarrow> (case r of [] \<Rightarrow> True | c # _ \<Rightarrow> c = 10 \<or> c = 44)"

definition value_start :: "nat \<Rightarrow> bool" where
  "value_start c \<longleftrightarrow> \<not> is_ws c \<and> c \<noteq> 93 \<and> c \<noteq> 125"

definition separator :: "nat \<Rightarrow> jsstring" where
  "separator ind = [44, 10] @ spaces ind"

definition parses_back :: "nat \<Rightarrow> jsval \<Rightarrow> bool" where
  "parses_back ind v \<longleftrightarrow>
     (\<forall>n r. value_end r \<longrightarrow> length (ser ind v @ r) \<le> n \<longrightarrow>
        parse_value n (ser ind v @ r) = Some (v, r))"

definition elements_back :: "nat \<Rightarrow> jsval list \<Rightarrow> bool" where
  "elements_back ind xs \<longleftrightarrow>
     (\<forall>n k r. length (join (separator ind) (ser_elements ind xs) @ 10 # spaces k @ 93 # r) \<le> n \<longrightarrow>
        parse_elements n (join (separator ind) (ser_elements ind xs) @ 10 # spaces k @ 93 # r)
          = Some (xs, r))"

definition members_back :: "nat \<Rightarrow> (jsstring \<times> jsval) list \<Rightarrow> bool" where
  "members_back ind kvs \<longleftrightarrow>
     (\<forall>n k r. length (join (separator ind) (ser_members ind kvs) @ 10 # spaces k @ 125 # r) \<le> n \<longrightarrow>
        parse_members n (join (separator ind) (ser_members ind kvs) @ 10 # spaces k @ 125 # r)
          = Some (kvs, r))"

section \<open>Parsing undoes serialisation\<close>

subsection \<open>String literals\<close>

lemma hex_value_hex_digit: "d < 16 \<Longrightarrow> hex_value (hex_digit d) = Some d"
  by (auto simp: hex_value_def hex_digit_def)

lemma base16_lin:
  "c = 16 * a + x \<Longrightarrow> a = 16 * b + y \<Longrightarrow> b = 16 * d + z \<Longrightarrow>
   4096 * d + 256 * z + 16 * y + x = (c::nat)"
  by simp

lemma hex4_arith:
  assumes "c < 65536"
  shows "4096 * (c div 4096 mod 16) + 256 * (c div 256 mod 16) + 16 * (c div 16 mod 16) + c mod 16 = (c::nat)"
proof -
  have d1: "c div 256 = c div 16 div 16"
    by (simp add: div_mult2_eq)
  have d2: "c div 4096 = c div 16 div 16 div 16"
    by (simp add: div_mult2_eq)
  have "c div 4096 < 16"
    using assms by (intro less_mult_imp_div_less) simp
  then have d3: "c div 4096 mod 16 = c div 16 div 16 div 16"
    by (simp add: d2)
  have e1: "c = 16 * (c div 16) + c mod 16"
    by (rule mult_div_mod_eq [symmetric])
  have e2: "c div 16 = 16 * (c div 16 div 16) + c div 16 mod 16"
    by (rule mult_div_mod_eq [symmetric])
  have e3: "c div 16 div 16 = 16 * (c div 16 div 16 div 16) + c div 16 div 16 mod 16"
    by (rule mult_div_mod_eq [symmetric])
  show ?thesis
    unfolding d3 d1 by (rule base16_lin [OF e1 e2 e3])
qed


lemma hex4_digits:
  assumes "c < 65536"
  shows "hex4 [hex_digit (c div 4096 mod 16), hex_digit (c div 256 mod 16),
               hex_digit (c div 16 mod 16), hex_digit (c mod 16)] = Some c"
proof -
  have v: "\<And>x. hex_value (hex_digit (x mod 16)) = Some (x mod 16)"
    by (rule hex_value_hex_digit) simp
  show ?thesis
    by (simp only: hex4.simps v prod.case option.case hex4_arith [OF assms])
qed

lemma parse_chars_unicode_escape:
  assumes "c < 65536"
  shows "parse_chars (unicode_escape c @ rest) = cons_result c (parse_chars rest)"
  unfolding unicode_escape_def
  by (simp del: hex4.simps add: hex4_digits [OF assms])

lemma parse_chars_quote_unit:
  "parse_chars (quote_unit c @ rest) = cons_result c (parse_chars rest)"
proof (cases "c < 32 \<or> is_lead c \<or> is_trail c")
  case True
  then have "c < 65536" by (auto simp: is_lead_def is_trail_def)
  then show ?thesis
    using True parse_chars_unicode_escape [of c rest]
    by (auto simp: quote_unit_def unescape_def)
next
  case False
  then show ?thesis
    by (auto simp: quote_unit_def unescape_def)
qed

lemma parse_chars_quote_units:
  "parse_chars (quote_units s @ 34 # r) = Some (s, r)"
proof (induction s rule: quote_units.induct)
  case 1
  show ?case by simp
next
  case (2 c)
  show ?case using parse_chars_quote_unit [of c "34 # r"] by (simp add: cons_result_def)
next
  case (3 c d cs)
  show ?case
  proof (cases "is_lead c \<and> is_trail d")
    case True
    then have "parse_chars (c # d # quote_units cs @ 34 # r) = Some (c # d # cs, r)"
      using 3 by (simp add: is_lead_def is_trail_def cons_result_def)
    with True show ?thesis by simp
  next
    case False
    then have "quote_units (c # d # cs) @ 34 # r = quote_unit c @ (quote_units (d # cs) @ 34 # r)"
      by auto
    then have "parse_chars (quote_units (c # d # cs) @ 34 # r) =
        cons_result c (parse_chars (quote_units (d # cs) @ 34 # r))"
      by (simp only: parse_chars_quote_unit)
    also have "\<dots> = Some (c # d # cs, r)"
      using 3(2) [OF False] by (simp add: cons_result_def)
    finally show ?thesis .
  qed
qed

subsection \<open>Numbers\<close>

lemma digits_small: "n < 10 \<Longrightarrow> digits n = [48 + n]"
  by (subst digits.simps) simp

lemma digits_big: "10 \<le> n \<Longrightarrow> digits n = digits (n div 10) @ [48 + n mod 10]"
  by (subst digits.simps) simp

lemma digits_not_Nil: "digits n \<noteq> []"
  by (cases "n < 10") (simp_all add: digits_small digits_big)

lemma digits_all_digit: "c \<in> set (digits n) \<Longrightarrow> is_digit c"
proof (induction n arbitrary: c rule: digits.induct)
  case (1 n)
  show ?case
  proof (cases "n < 10")
    case True
    with 1(2) show ?thesis by (simp add: digits_small is_digit_def)
  next
    case False
    then have "c \<in> set (digits (n div 10)) \<or> c = 48 + n mod 10"
      using 1(2) by (auto simp: digits_big)
    then show ?thesis
    proof
      assume "c \<in> set (digits (n div 10))"
      then show ?thesis using 1(1) False by simp
    next
      assume "c = 48 + n mod 10"
      moreover have "n mod 10 < 10" by simp
      ultimately show ?thesis unfolding is_digit_def by linarith
    qed
  qed
qed

lemma digits_value_snoc: "digits_value (ds @ [d]) = 10 * digits_value ds + (d - 48)"
  by (simp add: digits_value_def)

lemma digits_value_digits: "digits_value (digits n) = n"
proof (induction n rule: digits.induct)
  case (1 n)
  show ?case
  proof (cases "n < 10")
    case True
    then show ?thesis by (simp add: digits_small digits_value_def)
  next
    case False
    then have "digits_value (digits n) = 10 * (n div 10) + n mod 10"
      using 1 by (simp add: digits_big digits_value_snoc)
    then show ?thesis by simp
  qed
qed

lemma hd_digits_zero: "hd (digits n) = 48 \<Longrightarrow> n = 0"
proof (induction n rule: digits.induct)
  case (1 n)
  show ?case
  proof (cases "n < 10")
    case True
    with 1(2) show ?thesis by (simp add: digits_small)
  next
    case False
    then have "hd (digits n) = hd (digits (n div 10))"
      by (simp add: digits_big digits_not_Nil)
    then have "n div 10 = 0" using 1 False by simp
    with False show ?thesis by simp
  qed
qed

lemma length_digits_zero: "hd (digits n) = 48 \<Longrightarrow> length (digits n) = 1"
  using hd_digits_zero [of n] by (auto simp: digits_small)

lemma hd_digits_is_digit: "is_digit (hd (digits n))"
  using digits_all_digit [of "hd (digits n)" n] digits_not_Nil [of n] by simp

lemma takeWhile_digits:
  "number_end r \<Longrightarrow> takeWhile is_digit (digits n @ r) = digits n"
  by (cases r) (simp_all add: number_end_def takeWhile_append2 digits_all_digit)

lemma dropWhile_digits:
  "number_end r \<Longrightarrow> dropWhile is_digit (digits n @ r) = r"
  by (cases r) (simp_all add: number_end_def dropWhile_append2 digits_all_digit)

lemma parse_number_digits:
  assumes "number_end r"
  shows "parse_number (digits n @ r) = Some (Num (int n), r)"
proof -
  have h: "hd (digits n @ r) = hd (digits n)"
    by (simp add: digits_not_Nil)
  have "hd (digits n) \<noteq> 45"
    using hd_digits_is_digit [of n] by (auto simp: is_digit_def)
  then have neg: "\<not> (digits n @ r \<noteq> [] \<and> hd (digits n @ r) = 45)"
    by (simp add: h)
  have lead: "\<not> (hd (digits n) = 48 \<and> length (digits n) > 1)"
    using length_digits_zero [of n] by auto
  have rest: "\<not> (r \<noteq> [] \<and> (hd r = 46 \<or> hd r = 101 \<or> hd r = 69))"
    using assms by (cases r) (auto simp: number_end_def)
  show ?thesis
    unfolding parse_number_def Let_def
    using neg lead rest
    by (simp add: takeWhile_digits [OF assms] dropWhile_digits [OF assms]
        digits_not_Nil digits_value_digits del: hd_append2)
qed

lemma parse_number_minus_digits:
  assumes "number_end r"
  shows "parse_number (45 # digits n @ r) = Some (Num (- int n), r)"
proof -
  have lead: "\<not> (hd (digits n) = 48 \<and> length (digits n) > 1)"
    using length_digits_zero [of n] by auto
  have rest: "\<not> (r \<noteq> [] \<and> (hd r = 46 \<or> hd r = 101 \<or> hd r = 69))"
    using assms by (cases r) (auto simp: number_end_def)
  show ?thesis
    unfolding parse_number_def Let_def
    using lead rest
    by (simp add: takeWhile_digits [OF assms] dropWhile_digits [OF assms]
        digits_not_Nil digits_value_digits)
qed

lemma parse_number_text:
  "number_end r \<Longrightarrow> parse_number (number_text i @ r) = Some (Num i, r)"
  using parse_number_digits [of r "nat i"] parse_number_minus_digits [of r "nat (- i)"]
  by (simp add: number_text_def)

subsection \<open>Values\<close>

lemma skip_ws_start: "\<not> is_ws c \<Longrightarrow> skip_ws (c # s) = c # s"
  by (simp add: skip_ws_def)

lemma skip_ws_spaces: "skip_ws (spaces k @ s) = skip_ws s"
  by (induction k) (simp_all add: skip_ws_def spaces_def is_ws_def)

lemma skip_ws_newline: "skip_ws (10 # spaces k @ s) = skip_ws s"
  using skip_ws_spaces [of k s] by (simp add: skip_ws_def is_ws_def)

lemma value_end_number_end: "value_end r \<Longrightarrow> number_end r"
  by (cases r) (auto simp: value_end_def number_end_def is_digit_def)

lemma number_text_start:
  "\<exists>c cs. number_text i = c # cs \<and> (c = 45 \<or> is_digit c)"
proof (cases "i < 0")
  case True
  then show ?thesis by (simp add: number_text_def)
next
  case False
  obtain c cs where "digits (nat i) = c # cs"
    using digits_not_Nil [of "nat i"] by (cases "digits (nat i)") auto
  moreover from this have "is_digit c"
    using digits_all_digit [of c "nat i"] by simp
  ultimately show ?thesis using False by (simp add: number_text_def)
qed

lemma ser_start: "\<exists>c cs. ser ind v = c # cs \<and> value_start c"
proof (cases v)
  case (Num i)
  then show ?thesis
    using number_text_start [of i] by (auto simp: value_start_def is_ws_def is_digit_def)
next
  case (Obj kvs)
  then show ?thesis by (auto simp: value_start_def is_ws_def js_def)
qed (auto simp: value_start_def is_ws_def js_def QuoteJSONString_def)

lemma parses_back_Null: "parses_back ind Null"
  unfolding parses_back_def
proof (intro allI impI)
  fix n r assume "length (ser ind Null @ r) \<le> n"
  then obtain m where "n = Suc m" by (cases n) (auto simp: js_def)
  then show "parse_value n (ser ind Null @ r) = Some (Null, r)"
    by (simp add: js_def starts_with_def)
qed

lemma parses_back_Bool: "parses_back ind (Bool b)"
  unfolding parses_back_def
proof (intro allI impI)
  fix n r assume "length (ser ind (Bool b) @ r) \<le> n"
  then obtain m where "n = Suc m" by (cases n; cases b) (auto simp: js_def)
  then show "parse_value n (ser ind (Bool b) @ r) = Some (Bool b, r)"
    by (cases b) (simp_all add: js_def starts_with_def)
qed

lemma parses_back_Str: "parses_back ind (Str s)"
  unfolding parses_back_def
proof (intro allI impI)
  fix n r assume "length (ser ind (Str s) @ r) \<le> n"
  then obtain m where "n = Suc m" by (cases n) (auto simp: QuoteJSONString_def)
  then show "parse_value n (ser ind (Str s) @ r) = Some (Str s, r)"
    by (simp add: QuoteJSONString_def parse_chars_quote_units)
qed

lemma parses_back_Num: "parses_back ind (Num i)"
  unfolding parses_back_def
proof (intro allI impI)
  fix n r assume e: "value_end r" and "length (ser ind (Num i) @ r) \<le> n"
  obtain c cs where c: "number_text i = c # cs" "c = 45 \<or> is_digit c"
    using number_text_start [of i] by blast
  with \<open>length (ser ind (Num i) @ r) \<le> n\<close> obtain m where n: "n = Suc m"
    by (cases n) auto
  have "parse_value (Suc m) (c # cs @ r) = parse_number (c # cs @ r)"
    using c(2) by (auto simp: is_digit_def starts_with_def js_def)
  then show "parse_value n (ser ind (Num i) @ r) = Some (Num i, r)"
    using parse_number_text [OF value_end_number_end [OF e], of i] c(1) n by simp
qed

lemma ser_not_Nil: "ser ind v \<noteq> []"
  using ser_start [of ind v] by auto

lemma join_start:
  "ts \<noteq> [] \<Longrightarrow> hd ts = c # cs \<Longrightarrow> \<exists>ds. join sep ts = c # ds"
  by (cases "(sep, ts)" rule: join.cases) auto

lemma elements_start:
  assumes "xs \<noteq> []"
  shows "\<exists>c cs. join sep (ser_elements ind xs) = c # cs \<and> value_start c"
proof -
  obtain y ys where xs: "xs = y # ys" using assms by (cases xs) auto
  obtain c cs where c: "ser ind y = c # cs" "value_start c" using ser_start by blast
  then obtain ds where "join sep (ser_elements ind xs) = c # ds"
    using join_start [of "ser_elements ind xs" c cs sep] xs by auto
  with c(2) show ?thesis by blast
qed

lemma ser_members_defined:
  "list_all (\<lambda>kv. snd kv \<noteq> Undefined) kvs \<Longrightarrow>
   ser_members ind kvs = map (\<lambda>kv. QuoteJSONString (fst kv) @ [58, 32] @ ser ind (snd kv)) kvs"
  by (induction kvs) auto

lemma members_start:
  assumes "kvs \<noteq> []" "list_all (\<lambda>kv. snd kv \<noteq> Undefined) kvs"
  shows "\<exists>cs. join sep (ser_members ind kvs) = 34 # cs"
proof -
  obtain k v rest where kvs: "kvs = (k, v) # rest" using assms(1) by (cases kvs) auto
  then have v: "v \<noteq> Undefined" using assms(2) by simp
  have "hd (ser_members ind kvs) = 34 # (quote_units k @ [34] @ [58, 32] @ ser ind v)"
    using kvs v by (simp add: QuoteJSONString_def)
  moreover have "ser_members ind kvs \<noteq> []"
    using kvs v by simp
  ultimately show ?thesis using join_start by blast
qed

lemma parses_back_Arr:
  assumes "xs \<noteq> [] \<Longrightarrow> elements_back (ind + 2) xs"
  shows "parses_back ind (Arr xs)"
  unfolding parses_back_def
proof (intro allI impI)
  fix n r assume len: "length (ser ind (Arr xs) @ r) \<le> n"
  show "parse_value n (ser ind (Arr xs) @ r) = Some (Arr xs, r)"
  proof (cases "xs = []")
    case True
    with len obtain m where "n = Suc m" by (cases n) (auto simp: js_def)
    with True show ?thesis by (simp add: js_def skip_ws_def is_ws_def)
  next
    case False
    define J where "J = join (separator (ind + 2)) (ser_elements (ind + 2) xs)"
    define closing where "closing = 10 # spaces ind @ 93 # r"
    have shape: "ser ind (Arr xs) @ r = 91 # (10 # spaces (ind + 2) @ (J @ closing))"
      using False by (simp add: J_def closing_def separator_def)
    obtain d ds where d: "J = d # ds" "value_start d"
      using elements_start [OF False] unfolding J_def by blast
    have "Suc (length (J @ closing)) \<le> n"
      using len unfolding shape by simp
    then obtain m where n: "n = Suc m" "length (J @ closing) \<le> m"
      by (cases n) auto
    have sk: "\<And>k. skip_ws (10 # spaces k @ (J @ closing)) = d # (ds @ closing)"
      using d by (simp add: skip_ws_newline skip_ws_start value_start_def)
    have "parse_elements m (J @ closing) = Some (xs, r)"
      using assms [OF False] n(2) unfolding elements_back_def J_def closing_def by blast
    then have pe: "parse_elements m (d # (ds @ closing)) = Some (xs, r)"
      using d(1) by simp
    have "d \<noteq> 93" using d(2) by (simp add: value_start_def)
    then show ?thesis
      unfolding shape n(1) by (simp add: sk pe del: parse_elements.simps)
  qed
qed

lemma obj_put_fresh: "k \<notin> fst ` set acc \<Longrightarrow> obj_put acc k v = acc @ [(k, v)]"
  by (induction acc) auto

lemma foldl_obj_put:
  "distinct (map fst (acc @ kvs)) \<Longrightarrow>
   foldl (\<lambda>acc (k, v). obj_put acc k v) acc kvs = acc @ kvs"
proof (induction kvs arbitrary: acc)
  case Nil
  show ?case by simp
next
  case (Cons kv kvs)
  obtain k v where kv: "kv = (k, v)" by (cases kv)
  have "k \<notin> fst ` set acc" using Cons.prems kv by auto
  then have "obj_put acc k v = acc @ [(k, v)]" by (rule obj_put_fresh)
  moreover have "distinct (map fst ((acc @ [(k, v)]) @ kvs))"
    using Cons.prems kv by simp
  ultimately show ?case
    using Cons.IH [of "acc @ [(k, v)]"] kv by simp
qed

lemma mk_obj_distinct: "distinct (map fst kvs) \<Longrightarrow> mk_obj kvs = Obj kvs"
  using foldl_obj_put [of "[]" kvs] by (simp add: mk_obj_def)

lemma parses_back_Obj:
  assumes "distinct (map fst kvs)"
    and "list_all (\<lambda>kv. snd kv \<noteq> Undefined) kvs"
    and "kvs \<noteq> [] \<Longrightarrow> members_back (ind + 2) kvs"
  shows "parses_back ind (Obj kvs)"
  unfolding parses_back_def
proof (intro allI impI)
  fix n r assume len: "length (ser ind (Obj kvs) @ r) \<le> n"
  show "parse_value n (ser ind (Obj kvs) @ r) = Some (Obj kvs, r)"
  proof (cases "kvs = []")
    case True
    with len obtain m where "n = Suc m" by (cases n) (auto simp: js_def)
    with True show ?thesis by (simp add: js_def skip_ws_def is_ws_def)
  next
    case False
    define J where "J = join (separator (ind + 2)) (ser_members (ind + 2) kvs)"
    define closing where "closing = 10 # spaces ind @ 125 # r"
    have ne: "ser_members (ind + 2) kvs \<noteq> []"
      using False by (simp add: ser_members_defined [OF assms(2)])
    have shape: "ser ind (Obj kvs) @ r = 123 # (10 # spaces (ind + 2) @ (J @ closing))"
      using ne by (simp add: J_def closing_def separator_def)
    obtain ds where d: "J = 34 # ds"
      using members_start [OF False assms(2)] unfolding J_def by blast
    have "Suc (length (J @ closing)) \<le> n"
      using len unfolding shape by simp
    then obtain m where n: "n = Suc m" "length (J @ closing) \<le> m"
      by (cases n) auto
    have sk: "\<And>k. skip_ws (10 # spaces k @ (J @ closing)) = 34 # (ds @ closing)"
      using d by (simp add: skip_ws_newline skip_ws_start is_ws_def)
    have "parse_members m (J @ closing) = Some (kvs, r)"
      using assms(3) [OF False] n(2) unfolding members_back_def J_def closing_def by blast
    then have pe: "parse_members m (34 # (ds @ closing)) = Some (kvs, r)"
      using d by simp
    show ?thesis
      unfolding shape n(1)
      by (simp add: sk pe mk_obj_distinct [OF assms(1)] del: parse_members.simps)
  qed
qed

lemma elements_back_Cons:
  assumes px: "parses_back ind x"
    and pxs: "xs \<noteq> [] \<Longrightarrow> elements_back ind xs"
  shows "elements_back ind (x # xs)"
  unfolding elements_back_def
proof (intro allI impI)
  fix n k r
  define closing where "closing = 10 # spaces k @ 93 # r"
  assume "length (join (separator ind) (ser_elements ind (x # xs)) @ 10 # spaces k @ 93 # r) \<le> n"
  then have len: "length (join (separator ind) (ser ind x # ser_elements ind xs) @ closing) \<le> n"
    by (simp add: closing_def)
  have goal: "parse_elements n (join (separator ind) (ser ind x # ser_elements ind xs) @ closing)
      = Some (x # xs, r)"
  proof (cases "xs = []")
    case True
    have shape: "join (separator ind) (ser ind x # ser_elements ind xs) @ closing = ser ind x @ closing"
      using True by simp
    have "length (ser ind x @ closing) \<le> n"
      using len unfolding shape .
    moreover from this obtain m where n: "n = Suc m"
      using ser_not_Nil [of ind x] by (cases n) auto
    moreover have "value_end closing"
      by (simp add: value_end_def closing_def)
    ultimately have pv: "parse_value (Suc m) (ser ind x @ closing) = Some (x, closing)"
      using px unfolding parses_back_def by blast
    have sk: "skip_ws closing = 93 # r"
      by (simp add: closing_def skip_ws_newline skip_ws_start is_ws_def)
    show ?thesis
      unfolding shape n
      using True by (simp add: pv sk del: parse_value.simps)
  next
    case False
    define J where "J = join (separator ind) (ser_elements ind xs)"
    obtain y ys where xs: "xs = y # ys" using False by (cases xs) auto
    have shape: "join (separator ind) (ser ind x # ser_elements ind xs) @ closing
        = ser ind x @ (44 # (10 # spaces ind @ (J @ closing)))"
      using xs by (simp add: J_def separator_def)
    have l1: "length (ser ind x @ (44 # (10 # spaces ind @ (J @ closing)))) \<le> n"
      using len unfolding shape .
    then obtain m where n: "n = Suc m" by (cases n) auto
    have l2: "length (J @ closing) \<le> m"
      using l1 n ser_not_Nil [of ind x] by (cases "ser ind x") auto
    have "value_end (44 # (10 # spaces ind @ (J @ closing)))"
      by (simp add: value_end_def)
    then have pv: "parse_value (Suc m) (ser ind x @ (44 # (10 # spaces ind @ (J @ closing))))
        = Some (x, 44 # (10 # spaces ind @ (J @ closing)))"
      using px l1 n unfolding parses_back_def by blast
    obtain d ds where d: "J = d # ds" "value_start d"
      using elements_start [OF False] unfolding J_def by blast
    have sk1: "skip_ws (44 # (10 # spaces ind @ (J @ closing))) = 44 # (10 # spaces ind @ (J @ closing))"
      by (simp add: skip_ws_start is_ws_def)
    have sk2: "skip_ws (10 # spaces ind @ (J @ closing)) = J @ closing"
      using d by (simp add: skip_ws_newline skip_ws_start value_start_def)
    have pe: "parse_elements m (J @ closing) = Some (xs, r)"
      using pxs [OF False] l2 unfolding elements_back_def J_def closing_def by blast
    show ?thesis
      unfolding shape n
      by (simp add: pv sk1 sk2 pe cons_result_def del: parse_value.simps)
  qed
  show "parse_elements n (join (separator ind) (ser_elements ind (x # xs)) @ 10 # spaces k @ 93 # r)
      = Some (x # xs, r)"
    using goal by (simp add: closing_def)
qed

lemma members_back_Cons:
  assumes pv: "parses_back ind v"
    and v: "v \<noteq> Undefined"
    and defined: "list_all (\<lambda>kv. snd kv \<noteq> Undefined) kvs"
    and pkvs: "kvs \<noteq> [] \<Longrightarrow> members_back ind kvs"
  shows "members_back ind ((k, v) # kvs)"
  unfolding members_back_def
proof (intro allI impI)
  fix n i r
  define closing where "closing = 10 # spaces i @ 125 # r"
  define J where "J = join (separator ind) (ser_members ind kvs)"
  define after where "after = (if kvs = [] then closing else 44 # (10 # spaces ind @ (J @ closing)))"
  assume "length (join (separator ind) (ser_members ind ((k, v) # kvs)) @ 10 # spaces i @ 125 # r) \<le> n"
  then have len: "length (join (separator ind) (ser_members ind ((k, v) # kvs)) @ closing) \<le> n"
    by (simp add: closing_def)
  have empty: "kvs = [] \<Longrightarrow> ser_members ind kvs = []"
    by simp
  have nonempty: "kvs \<noteq> [] \<Longrightarrow> \<exists>m ms. ser_members ind kvs = m # ms"
    using ser_members_defined [OF defined, of ind] by (cases kvs) auto
  have shape: "join (separator ind) (ser_members ind ((k, v) # kvs)) @ closing
      = 34 # (quote_units k @ 34 # (58 # (32 # (ser ind v @ after))))"
  proof (cases "kvs = []")
    case True
    then show ?thesis using v by (simp add: after_def QuoteJSONString_def)
  next
    case False
    then obtain m ms where "ser_members ind kvs = m # ms" using nonempty by blast
    then show ?thesis
      using v False by (simp add: after_def QuoteJSONString_def J_def separator_def)
  qed
  have l1: "length (34 # (quote_units k @ 34 # (58 # (32 # (ser ind v @ after))))) \<le> n"
    using len unfolding shape .
  then obtain m where n: "n = Suc m" by (cases n) auto
  have l2: "length (ser ind v @ after) \<le> Suc m"
    using l1 n by simp
  have pc: "parse_chars (quote_units k @ 34 # (58 # (32 # (ser ind v @ after))))
      = Some (k, 58 # (32 # (ser ind v @ after)))"
    by (rule parse_chars_quote_units)
  have sk0: "skip_ws (58 # (32 # (ser ind v @ after))) = 58 # (32 # (ser ind v @ after))"
    by (simp add: skip_ws_start is_ws_def)
  obtain c cs where c: "ser ind v = c # cs" "value_start c"
    using ser_start by blast
  have sk1: "skip_ws (32 # (ser ind v @ after)) = ser ind v @ after"
    using c by (simp add: skip_ws_def is_ws_def value_start_def)
  have "value_end after"
    by (simp add: after_def value_end_def closing_def)
  then have pval: "parse_value (Suc m) (ser ind v @ after) = Some (v, after)"
    using pv l2 unfolding parses_back_def by blast
  have goal: "parse_members (Suc m) (34 # (quote_units k @ 34 # (58 # (32 # (ser ind v @ after)))))
      = Some ((k, v) # kvs, r)"
  proof (cases "kvs = []")
    case True
    then have "skip_ws after = 125 # r"
      by (simp add: after_def closing_def skip_ws_newline skip_ws_start is_ws_def)
    then show ?thesis
      using True by (simp add: pc sk0 sk1 pval del: parse_value.simps)
  next
    case False
    then have a: "after = 44 # (10 # spaces ind @ (J @ closing))"
      by (simp add: after_def)
    have sk2: "skip_ws after = 44 # (10 # spaces ind @ (J @ closing))"
      unfolding a by (simp add: skip_ws_start is_ws_def)
    obtain ds where d: "J = 34 # ds"
      using members_start [OF False defined] unfolding J_def by blast
    have sk3: "skip_ws (10 # spaces ind @ (J @ closing)) = J @ closing"
      using d by (simp add: skip_ws_newline skip_ws_start is_ws_def)
    have "length (J @ closing) \<le> m"
      using l1 n a by simp
    then have pm: "parse_members m (J @ closing) = Some (kvs, r)"
      using pkvs [OF False] unfolding members_back_def J_def closing_def by blast
    show ?thesis
      by (simp add: pc sk0 sk1 pval sk2 sk3 pm cons_result_def del: parse_value.simps)
  qed
  show "parse_members n (join (separator ind) (ser_members ind ((k, v) # kvs)) @ 10 # spaces i @ 125 # r)
      = Some ((k, v) # kvs, r)"
    using goal shape n by (simp add: closing_def)
qed

lemma is_json_defined: "is_json v \<Longrightarrow> v \<noteq> Undefined"
  by auto

lemma all_json_defined:
  "list_all (\<lambda>kv. is_json (snd kv)) kvs \<Longrightarrow> list_all (\<lambda>kv. snd kv \<noteq> Undefined) kvs"
  by (induction kvs) auto

lemma ser_parses_back:
  "is_json v \<longrightarrow> parses_back ind v"
  "list_all is_json xs \<longrightarrow> xs \<noteq> [] \<longrightarrow> elements_back ind xs"
  "list_all (\<lambda>kv. is_json (snd kv)) kvs \<longrightarrow> kvs \<noteq> [] \<longrightarrow> members_back ind kvs"
proof (induction ind v and ind xs and ind kvs rule: ser_ser_elements_ser_members.induct)
  case (1 ind)
  show ?case by simp
next
  case (2 ind)
  show ?case by (simp add: parses_back_Null)
next
  case (3 ind b)
  show ?case by (simp add: parses_back_Bool)
next
  case (4 ind i)
  show ?case by (simp add: parses_back_Num)
next
  case (5 ind s)
  show ?case by (simp add: parses_back_Str)
next
  case (6 ind xs)
  show ?case
  proof
    assume "is_json (Arr xs)"
    then have "xs \<noteq> [] \<Longrightarrow> elements_back (ind + 2) xs"
      using 6 by simp
    then show "parses_back ind (Arr xs)"
      by (rule parses_back_Arr)
  qed
next
  case (7 ind kvs)
  show ?case
  proof
    assume j: "is_json (Obj kvs)"
    then have "kvs \<noteq> [] \<Longrightarrow> members_back (ind + 2) kvs"
      using 7(1) by simp
    moreover have "distinct (map fst kvs)"
      using j by simp
    moreover have "list_all (\<lambda>kv. snd kv \<noteq> Undefined) kvs"
      using j by (simp add: all_json_defined)
    ultimately show "parses_back ind (Obj kvs)"
      using parses_back_Obj by blast
  qed
next
  case (8 ind)
  show ?case by simp
next
  case (9 ind x xs)
  show ?case
  proof (intro impI)
    assume j: "list_all is_json (x # xs)"
    then have "parses_back ind x" using 9(1) by simp
    moreover have "xs \<noteq> [] \<Longrightarrow> elements_back ind xs" using 9(2) j by simp
    ultimately show "elements_back ind (x # xs)"
      by (rule elements_back_Cons)
  qed
next
  case (10 ind)
  show ?case by simp
next
  case (11 ind k v kvs)
  show ?case
  proof (intro impI)
    assume j: "list_all (\<lambda>kv. is_json (snd kv)) ((k, v) # kvs)"
    then have v: "v \<noteq> Undefined" by auto
    have "parses_back ind v" using 11(2) [OF v] j by simp
    moreover have "list_all (\<lambda>kv. snd kv \<noteq> Undefined) kvs"
      using j by (simp add: all_json_defined)
    moreover have "kvs \<noteq> [] \<Longrightarrow> members_back ind kvs"
      using 11(3) [OF v] j by simp
    ultimately show "members_back ind ((k, v) # kvs)"
      using v members_back_Cons by blast
  qed
qed

lemma parse_value_ser:
  assumes "is_json v"
  shows "parse_value (length (ser 0 v)) (ser 0 v) = Some (v, [])"
proof -
  have "parses_back 0 v" using assms ser_parses_back(1) by blast
  moreover have "value_end []" by (simp add: value_end_def)
  ultimately have "parse_value (length (ser 0 v @ [])) (ser 0 v @ []) = Some (v, [])"
    unfolding parses_back_def by blast
  then show ?thesis by simp
qed

lemma JSON_parse_ser:
  assumes "is_json v"
  shows "JSON_parse (ser 0 v) = Inr v"
proof -
  obtain c cs where c: "ser 0 v = c # cs" "value_start c"
    using ser_start by blast
  then have "skip_ws (ser 0 v) = ser 0 v"
    by (simp add: skip_ws_start value_start_def)
  then show ?thesis
    using parse_value_ser [OF assms] by (simp add: JSON_parse_def skip_ws_def)
qed

lemma JSON_parse_stringify:
  "is_json v \<Longrightarrow> \<exists>text. JSON_stringify v = Some text \<and> JSON_parse text = Inr v"
  using JSON_parse_ser [of v] by (auto simp: JSON_stringify_def)

subsection \<open>What the parser returns is a JSON value\<close>

declare parse_value.simps [simp del] parse_elements.simps [simp del] parse_members.simps [simp del]

lemma obj_put_keys: "set (map fst (obj_put acc k v)) = insert k (set (map fst acc))"
proof (induction acc)
  case Nil
  show ?case by simp
next
  case (Cons a acc)
  obtain k' v' where a: "a = (k', v')" by (cases a)
  show ?case
  proof (cases "k' = k")
    case True
    then show ?thesis using a by simp
  next
    case False
    then show ?thesis using Cons.IH a by (simp add: insert_commute)
  qed
qed

lemma obj_put_distinct: "distinct (map fst acc) \<Longrightarrow> distinct (map fst (obj_put acc k v))"
proof (induction acc)
  case Nil
  show ?case by simp
next
  case (Cons a acc)
  obtain k' v' where a: "a = (k', v')" by (cases a)
  show ?case
  proof (cases "k' = k")
    case True
    with Cons.prems a show ?thesis by simp
  next
    case False
    have "k' \<notin> set (map fst (obj_put acc k v))"
      using Cons.prems a False by (simp only: obj_put_keys) simp
    with Cons a False show ?thesis by simp
  qed
qed

lemma obj_put_all:
  "list_all P acc \<Longrightarrow> P (k, v) \<Longrightarrow> list_all P (obj_put acc k v)"
  by (induction acc) auto

lemma foldl_obj_put_json:
  "distinct (map fst acc) \<Longrightarrow> list_all (\<lambda>kv. is_json (snd kv)) acc \<Longrightarrow>
   list_all (\<lambda>kv. is_json (snd kv)) kvs \<Longrightarrow>
   is_json (Obj (foldl (\<lambda>acc (k, v). obj_put acc k v) acc kvs))"
proof (induction kvs arbitrary: acc)
  case Nil
  then show ?case by simp
next
  case (Cons kv kvs)
  obtain k v where kv: "kv = (k, v)" by (cases kv)
  have "distinct (map fst (obj_put acc k v))"
    using Cons.prems(1) by (rule obj_put_distinct)
  moreover have "list_all (\<lambda>kv. is_json (snd kv)) (obj_put acc k v)"
    using Cons.prems(2,3) kv by (intro obj_put_all) simp_all
  moreover have "list_all (\<lambda>kv. is_json (snd kv)) kvs"
    using Cons.prems(3) by simp
  ultimately show ?case
    using Cons.IH [of "obj_put acc k v"] kv by simp
qed

lemma is_json_mk_obj:
  "list_all (\<lambda>kv. is_json (snd kv)) kvs \<Longrightarrow> is_json (mk_obj kvs)"
  using foldl_obj_put_json [of "[]" kvs] by (simp add: mk_obj_def)

lemma is_json_parse_number: "parse_number s = Some (v, r) \<Longrightarrow> is_json v"
  by (auto simp: parse_number_def Let_def split: if_splits)

lemma cons_result_Some:
  "cons_result x res = Some (ys, r) \<Longrightarrow> \<exists>xs. res = Some (xs, r) \<and> ys = x # xs"
  by (cases res) (auto simp: cons_result_def)

lemma parse_value_object:
  "parse_value (Suc n) (123 # cs) = Some (v, r) \<Longrightarrow>
   (\<exists>ds. skip_ws cs = 125 # ds \<and> v = Obj [] \<and> r = ds) \<or>
   (\<exists>d ds kvs. skip_ws cs = d # ds \<and> d \<noteq> 125 \<and>
      parse_members n (d # ds) = Some (kvs, r) \<and> v = mk_obj kvs)"
  by (cases "skip_ws cs")
    (auto simp add: parse_value.simps split: if_splits option.splits)

lemma parse_value_array:
  "parse_value (Suc n) (91 # cs) = Some (v, r) \<Longrightarrow>
   (\<exists>ds. skip_ws cs = 93 # ds \<and> v = Arr [] \<and> r = ds) \<or>
   (\<exists>d ds xs. skip_ws cs = d # ds \<and> d \<noteq> 93 \<and>
      parse_elements n (d # ds) = Some (xs, r) \<and> v = Arr xs)"
  by (cases "skip_ws cs")
    (auto simp add: parse_value.simps split: if_splits option.splits)

lemma parse_value_atom:
  "c \<noteq> 123 \<Longrightarrow> c \<noteq> 91 \<Longrightarrow> parse_value (Suc n) (c # cs) = Some (v, r) \<Longrightarrow> is_json v"
  by (auto simp add: parse_value.simps split: if_splits option.splits dest: is_json_parse_number)

lemma parse_elements_step:
  assumes p: "parse_elements (Suc n) s = Some (xs, r)"
  obtains x rest c cs where "parse_value (Suc n) s = Some (x, rest)" and "skip_ws rest = c # cs"
    and "(c = 93 \<and> xs = [x] \<and> r = cs) \<or>
      (c \<noteq> 93 \<and> c = 44 \<and> (\<exists>ys. parse_elements n (skip_ws cs) = Some (ys, r) \<and> xs = x # ys))"
proof -
  note p0 = p [unfolded parse_elements.simps(2)]
  obtain x rest where pv: "parse_value (Suc n) s = Some (x, rest)"
    using p0 by (cases "parse_value (Suc n) s") auto
  obtain c cs where sk: "skip_ws rest = c # cs"
    using p0 by (cases "skip_ws rest") (auto simp: pv)
  have p2: "(if c = 93 then Some ([x], cs)
             else if c = 44 then cons_result x (parse_elements n (skip_ws cs))
             else None) = Some (xs, r)"
    using p0 by (simp add: pv sk)
  have "(c = 93 \<and> xs = [x] \<and> r = cs) \<or>
      (c \<noteq> 93 \<and> c = 44 \<and> (\<exists>ys. parse_elements n (skip_ws cs) = Some (ys, r) \<and> xs = x # ys))"
  proof (cases "c = 93")
    case True
    with p2 show ?thesis by simp
  next
    case False
    with p2 have "c = 44" "cons_result x (parse_elements n (skip_ws cs)) = Some (xs, r)"
      by (simp_all split: if_splits)
    with False show ?thesis
      using cons_result_Some [of x "parse_elements n (skip_ws cs)" xs r] by simp
  qed
  with pv sk show thesis by (rule that)
qed

lemma parse_members_step:
  assumes p: "parse_members (Suc n) s = Some (kvs, r)"
  obtains s1 k s2 s3 v s4 c cs where
    "s = 34 # s1" and "parse_chars s1 = Some (k, s2)" and "skip_ws s2 = 58 # s3"
    and "parse_value (Suc n) (skip_ws s3) = Some (v, s4)" and "skip_ws s4 = c # cs"
    and "(c = 125 \<and> kvs = [(k, v)] \<and> r = cs) \<or>
      (c \<noteq> 125 \<and> c = 44 \<and>
        (\<exists>rest. parse_members n (skip_ws cs) = Some (rest, r) \<and> kvs = (k, v) # rest))"
proof -
  note p0 = p [unfolded parse_members.simps(2)]
  obtain q s1 where s: "s = q # s1"
    using p0 by (cases s) auto
  have q: "q = 34"
    using p0 by (simp add: s split: if_splits)
  obtain k s2 where pc: "parse_chars s1 = Some (k, s2)"
    using p0 by (cases "parse_chars s1") (auto simp: s q)
  obtain colon s3 where sk: "skip_ws s2 = colon # s3"
    using p0 by (cases "skip_ws s2") (auto simp: s q pc)
  have colon: "colon = 58"
    using p0 by (simp add: s q pc sk split: if_splits)
  obtain v s4 where pv: "parse_value (Suc n) (skip_ws s3) = Some (v, s4)"
    using p0 by (cases "parse_value (Suc n) (skip_ws s3)") (auto simp: s q pc sk colon)
  obtain c cs where sk2: "skip_ws s4 = c # cs"
    using p0 by (cases "skip_ws s4") (auto simp: s q pc sk colon pv)
  have p2: "(if c = 125 then Some ([(k, v)], cs)
             else if c = 44 then cons_result (k, v) (parse_members n (skip_ws cs))
             else None) = Some (kvs, r)"
    using p0 by (simp add: s q pc sk colon pv sk2)
  have "(c = 125 \<and> kvs = [(k, v)] \<and> r = cs) \<or>
      (c \<noteq> 125 \<and> c = 44 \<and>
        (\<exists>rest. parse_members n (skip_ws cs) = Some (rest, r) \<and> kvs = (k, v) # rest))"
  proof (cases "c = 125")
    case True
    with p2 show ?thesis by simp
  next
    case False
    with p2 have "c = 44" "cons_result (k, v) (parse_members n (skip_ws cs)) = Some (kvs, r)"
      by (simp_all split: if_splits)
    with False show ?thesis
      using cons_result_Some [of "(k, v)" "parse_members n (skip_ws cs)" kvs r] by simp
  qed
  with s [unfolded q] pc sk [unfolded colon] pv sk2 show thesis by (rule that)
qed

lemma parse_sound:
  "\<forall>v r. parse_value n s = Some (v, r) \<longrightarrow> is_json v"
  "\<forall>xs r. parse_elements n s = Some (xs, r) \<longrightarrow> list_all is_json xs"
  "\<forall>kvs r. parse_members n s = Some (kvs, r) \<longrightarrow> list_all (\<lambda>kv. is_json (snd kv)) kvs"
proof (induction n s and n s and n s rule: parse_value_parse_elements_parse_members.induct)
  case (1 s)
  show ?case by (simp add: parse_value.simps)
next
  case (2 n s)
  show ?case
  proof (intro allI impI)
    fix v r assume p: "parse_value (Suc n) s = Some (v, r)"
    then obtain c cs where s: "s = c # cs"
      by (cases s) (auto simp: parse_value.simps)
    show "is_json v"
    proof (cases "c = 123")
      case True
      from parse_value_object [OF p [unfolded s True]] show ?thesis
      proof
        assume "\<exists>ds. skip_ws cs = 125 # ds \<and> v = Obj [] \<and> r = ds"
        then show ?thesis by auto
      next
        assume "\<exists>d ds kvs. skip_ws cs = d # ds \<and> d \<noteq> 125 \<and>
          parse_members n (d # ds) = Some (kvs, r) \<and> v = mk_obj kvs"
        then obtain d ds kvs where a: "skip_ws cs = d # ds" "d \<noteq> 125"
          "parse_members n (d # ds) = Some (kvs, r)" "v = mk_obj kvs"
          by blast
        have "list_all (\<lambda>kv. is_json (snd kv)) kvs"
          using 2(1) [OF s True a(1,2)] a(3) by blast
        then show ?thesis using a(4) by (simp add: is_json_mk_obj)
      qed
    next
      case not_obj: False
      show ?thesis
      proof (cases "c = 91")
        case True
        from parse_value_array [OF p [unfolded s True]] show ?thesis
        proof
          assume "\<exists>ds. skip_ws cs = 93 # ds \<and> v = Arr [] \<and> r = ds"
          then show ?thesis by auto
        next
          assume "\<exists>d ds xs. skip_ws cs = d # ds \<and> d \<noteq> 93 \<and>
            parse_elements n (d # ds) = Some (xs, r) \<and> v = Arr xs"
          then obtain d ds xs where a: "skip_ws cs = d # ds" "d \<noteq> 93"
            "parse_elements n (d # ds) = Some (xs, r)" "v = Arr xs"
            by blast
          have "list_all is_json xs"
            using 2(2) [OF s not_obj True a(1,2)] a(3) by blast
          then show ?thesis using a(4) by simp
        qed
      next
        case False
        with p s not_obj show ?thesis
          using parse_value_atom by blast
      qed
    qed
  qed
next
  case (3 s)
  show ?case by (simp add: parse_elements.simps)
next
  case (4 n s)
  show ?case
  proof (intro allI impI)
    fix xs r assume p: "parse_elements (Suc n) s = Some (xs, r)"
    from p obtain x rest c cs where a: "parse_value (Suc n) s = Some (x, rest)"
      "skip_ws rest = c # cs"
      "(c = 93 \<and> xs = [x] \<and> r = cs) \<or>
       (c \<noteq> 93 \<and> c = 44 \<and> (\<exists>ys. parse_elements n (skip_ws cs) = Some (ys, r) \<and> xs = x # ys))"
      by (rule parse_elements_step)
    have x: "is_json x" using 4(1) a(1) by blast
    from a(3) show "list_all is_json xs"
    proof
      assume "c = 93 \<and> xs = [x] \<and> r = cs"
      with x show ?thesis by simp
    next
      assume b: "c \<noteq> 93 \<and> c = 44 \<and> (\<exists>ys. parse_elements n (skip_ws cs) = Some (ys, r) \<and> xs = x # ys)"
      then obtain ys where ys: "parse_elements n (skip_ws cs) = Some (ys, r)" "xs = x # ys"
        by blast
      have "list_all is_json ys"
        using 4(2) [OF a(1) refl a(2)] b ys(1) by blast
      with x ys(2) show ?thesis by simp
    qed
  qed
next
  case (5 s)
  show ?case by (simp add: parse_members.simps)
next
  case (6 n s)
  show ?case
  proof (intro allI impI)
    fix kvs r assume p: "parse_members (Suc n) s = Some (kvs, r)"
    from p obtain s1 k s2 s3 v s4 c cs where a:
      "s = 34 # s1" "parse_chars s1 = Some (k, s2)" "skip_ws s2 = 58 # s3"
      "parse_value (Suc n) (skip_ws s3) = Some (v, s4)" "skip_ws s4 = c # cs"
      "(c = 125 \<and> kvs = [(k, v)] \<and> r = cs) \<or>
       (c \<noteq> 125 \<and> c = 44 \<and>
         (\<exists>rest. parse_members n (skip_ws cs) = Some (rest, r) \<and> kvs = (k, v) # rest))"
      by (rule parse_members_step)
    have v: "is_json v"
      using 6(1) [OF a(1) _ a(2) refl a(3)] a(4) by simp
    from a(6) show "list_all (\<lambda>kv. is_json (snd kv)) kvs"
    proof
      assume "c = 125 \<and> kvs = [(k, v)] \<and> r = cs"
      with v show ?thesis by simp
    next
      assume b: "c \<noteq> 125 \<and> c = 44 \<and>
         (\<exists>rest. parse_members n (skip_ws cs) = Some (rest, r) \<and> kvs = (k, v) # rest)"
      then obtain rest where rest: "parse_members n (skip_ws cs) = Some (rest, r)"
        "kvs = (k, v) # rest"
        by blast
      have "list_all (\<lambda>kv. is_json (snd kv)) rest"
        using 6(2) [OF a(1) _ a(2) refl a(3) _ a(4) refl a(5)] b rest(1) by simp
      with v rest(2) show ?thesis by simp
    qed
  qed
qed

lemma is_json_JSON_parse: "JSON_parse text = Inr v \<Longrightarrow> is_json v"
  using parse_sound(1) [of "length text" "skip_ws text"]
  by (auto simp: JSON_parse_def split: option.splits if_splits)

section \<open>The auth guard: what it accepts\<close>

text \<open>What the guard does, for every token and request.\<close>

lemma checkAuth_next_iff:
  "checkAuth token req = None \<longleftrightarrow>
     token = [] \<or> query_token req = Str token \<or>
     trim (replace_bearer (auth_header_text req)) = token"
  by (auto simp: checkAuth_def Let_def)

lemma checkAuth_no_token: "checkAuth (AUTH_TOKEN None) req = None"
  by (simp add: checkAuth_def AUTH_TOKEN_def)

lemma checkAuth_rejects_with_401:
  "checkAuth token req = Some r \<Longrightarrow> r = unauthorized \<and> status r = 401"
  by (auto simp: checkAuth_def Let_def unauthorized_def split: if_splits)

text \<open>
  Claim C1. With a token configured, a request is to pass if and only if its query
  parameter \<^verbatim>\<open>token\<close> is the secret, or its \<^verbatim>\<open>Authorization\<close> header without a leading
  Bearer prefix, trimmed, is the secret. The guard removes the first \<^verbatim>\<open>Bearer\<close> followed by
  white space wherever it stands in the header, not only at its start: with the secret
  \<^verbatim>\<open>secret\<close>, no query token and the header \<^verbatim>\<open>secBearer ret\<close>, the guard calls
  \<^verbatim>\<open>next()\<close>, although the header has no leading Bearer prefix and is not the secret.
\<close>

theorem checkAuth_unanchored_bearer:
  "checkAuth (js ''secret'')
     \<lparr>query_token = Undefined, headers = [js ''authorization'' \<mapsto> js ''secBearer ret''],
      remoteAddress = None, body = Undefined, params_id = []\<rparr> = None
   \<and> \<not> spec_passes (js ''secret'')
     \<lparr>query_token = Undefined, headers = [js ''authorization'' \<mapsto> js ''secBearer ret''],
      remoteAddress = None, body = Undefined, params_id = []\<rparr>"
  by (simp add: checkAuth_def spec_passes_def spec_strip_bearer_def auth_header_text_def
      header_def js_or_def trim_def match_bearer_def is_space_def lower_ascii_def js_def)

section \<open>The store: reading, writing, appending\<close>

lemma readDb_eq:
  "readDb st =
     Inr (case db_file st of
            None \<Rightarrow> empty_doc
          | Some raw \<Rightarrow> (case JSON_parse raw of Inl e \<Rightarrow> empty_doc | Inr v \<Rightarrow> v))"
  by (simp add: readDb_def readDb_try_def readFileSync_def split: option.splits sum.splits)

lemma is_json_empty_doc: "is_json empty_doc"
  by (simp add: empty_doc_def)

lemma is_json_readDb: "readDb st = Inr db \<Longrightarrow> is_json db"
  by (auto simp: readDb_eq is_json_empty_doc is_json_JSON_parse split: option.splits sum.splits)

lemma writeDb_readDb:
  assumes "is_json v"
  shows "writeDb v st = Inr (st\<lparr>db_file := Some (ser 0 v)\<rparr>)"
    and "readDb (st\<lparr>db_file := Some (ser 0 v)\<rparr>) = Inr v"
proof -
  have "v \<noteq> Undefined" using assms by auto
  then show "writeDb v st = Inr (st\<lparr>db_file := Some (ser 0 v)\<rparr>)"
    by (simp add: writeDb_def writeFileSync_def JSON_stringify_def)
  show "readDb (st\<lparr>db_file := Some (ser 0 v)\<rparr>) = Inr v"
    by (simp add: readDb_eq JSON_parse_ser [OF assms])
qed

lemma initDb_creates_empty_store:
  "\<exists>st'. initDb \<lparr>db_file = None\<rparr> = Inr st' \<and> readDb st' = Inr empty_doc"
  using writeDb_readDb [OF is_json_empty_doc, of "\<lparr>db_file = None\<rparr>"]
  by (simp add: initDb_def writeDb_def)



lemma JSON_parse_empty_object: "JSON_parse (js ''{}'') = Inr (Obj [])"
  by (simp add: JSON_parse_def js_def skip_ws_def is_ws_def parse_value.simps)

lemma JSON_parse_null: "JSON_parse (js ''null'') = Inr Null"
  by (simp add: JSON_parse_def js_def skip_ws_def is_ws_def parse_value.simps starts_with_def)

text \<open>
  Claim C9. The \<^verbatim>\<open>catch\<close> of \<^verbatim>\<open>readDb\<close> covers thrown errors only, not the shape of what
  was parsed: for a file holding \<^verbatim>\<open>{}\<close> or \<^verbatim>\<open>null\<close>, valid JSON without a
  \<^verbatim>\<open>callbacks\<close> array, \<^verbatim>\<open>readDb\<close> returns the parsed value as it is, not the empty
  document, and the append of \<^verbatim>\<open>POST /suno/callback\<close> then throws a TypeError, for every
  request.
\<close>

theorem readDb_keeps_wrong_shape:
  "readDb \<lparr>db_file = Some (js ''{}'')\<rparr> = Inr (Obj []) \<and> Obj [] \<noteq> empty_doc \<and>
   post_callback e req \<lparr>db_file = Some (js ''{}'')\<rparr> = Inl TypeError \<and>
   readDb \<lparr>db_file = Some (js ''null'')\<rparr> = Inr Null \<and> Null \<noteq> empty_doc \<and>
   post_callback e req \<lparr>db_file = Some (js ''null'')\<rparr> = Inl TypeError"
  by (simp add: readDb_eq JSON_parse_empty_object JSON_parse_null empty_doc_def
      post_callback_def append_record_def)

lemma get_prop_Arr:
  "get_prop db k = Inr (Arr xs) \<Longrightarrow> \<exists>kvs. db = Obj kvs \<and> map_of kvs k = Some (Arr xs)"
  by (cases db) (auto split: option.splits)

lemma map_of_obj_put: "map_of (obj_put kvs k v) k = Some v"
  by (induction kvs) auto

lemma is_json_obj_put:
  assumes "is_json (Obj kvs)" "is_json v"
  shows "is_json (Obj (obj_put kvs k v))"
proof -
  have "distinct (map fst (obj_put kvs k v))"
    using assms(1) by (simp add: obj_put_distinct)
  moreover have "list_all (\<lambda>kv. is_json (snd kv)) (obj_put kvs k v)"
    using assms by (intro obj_put_all) simp_all
  ultimately show ?thesis by simp
qed

lemma is_json_js_or: "is_json b \<Longrightarrow> a = Undefined \<or> is_json a \<Longrightarrow> is_json (js_or a b)"
  by (auto simp: js_or_def)

lemma is_json_new_record:
  assumes "request_ok req"
  shows "is_json (new_record e req)"
proof -
  have keys: "distinct [js ''id'', js ''receivedAt'', js ''ip'', js ''userAgent'', js ''payload'']"
    by (simp add: js_def)
  have ip: "is_json (js_or (js_or (header req (js ''x-forwarded-for'')) (socket_address req)) Null)"
    by (auto simp: js_or_def header_def socket_address_def split: option.splits)
  have ua: "is_json (js_or (header req (js ''user-agent'')) Null)"
    by (auto simp: js_or_def header_def split: option.splits)
  have pl: "is_json (js_or (body req) (Obj []))"
    using assms by (auto simp: js_or_def request_ok_def)
  show ?thesis
    using keys ip ua pl by (simp add: new_record_def)
qed

lemma stored_callbacks_Some:
  assumes "stored_callbacks st = Some xs"
  shows "\<exists>kvs. readDb st = Inr (Obj kvs) \<and> map_of kvs (js ''callbacks'') = Some (Arr xs) \<and>
           is_json (Obj kvs)"
proof -
  obtain db where db: "readDb st = Inr db"
    by (simp add: readDb_eq)
  then have g: "get_prop db (js ''callbacks'') = Inr (Arr xs)"
    using assms by (auto simp: stored_callbacks_def split: sum.splits jsval.splits)
  then obtain kvs where "db = Obj kvs" "map_of kvs (js ''callbacks'') = Some (Arr xs)"
    using get_prop_Arr by blast
  with db is_json_readDb [OF db] show ?thesis by blast
qed

lemma get_prop_error: "get_prop v k = Inl e \<Longrightarrow> e = TypeError"
  by (cases v) auto

lemma stored_callbacks_None:
  assumes "stored_callbacks st = None"
  shows "post_callback e req st = Inl TypeError"
proof -
  obtain db where db: "readDb st = Inr db"
    by (simp add: readDb_eq)
  show ?thesis
  proof (cases "get_prop db (js ''callbacks'')")
    case (Inl err)
    then show ?thesis
      using get_prop_error [OF Inl] by (simp add: post_callback_def db append_record_def)
  next
    case (Inr v)
    then have "\<forall>xs. v \<noteq> Arr xs"
      using assms by (auto simp: stored_callbacks_def db)
    then show ?thesis
      using Inr by (cases v) (simp_all add: post_callback_def db append_record_def)
  qed
qed

lemma is_json_map_of:
  "list_all (\<lambda>kv. is_json (snd kv)) kvs \<Longrightarrow> map_of kvs k = Some v \<Longrightarrow> is_json v"
  by (induction kvs) (auto split: if_splits)

lemma post_callback_effect:
  assumes s: "stored_callbacks st = Some xs" and r: "request_ok req"
  shows "\<exists>st'. post_callback e req st = Inr (ok_response, st') \<and>
           stored_callbacks st' = Some (take 500 (new_record e req # xs))"
proof -
  obtain kvs where kvs: "readDb st = Inr (Obj kvs)"
    "map_of kvs (js ''callbacks'') = Some (Arr xs)" "is_json (Obj kvs)"
    using stored_callbacks_Some [OF s] by blast
  define ys where "ys = take 500 (new_record e req # xs)"
  define db' where "db' = Obj (obj_put kvs (js ''callbacks'') (Arr ys))"
  have a: "append_record (Obj kvs) (new_record e req) = Inr db'"
    using kvs(2) by (simp add: append_record_def db'_def ys_def)
  have "is_json (Arr xs)"
    using kvs(2,3) is_json_map_of [of kvs "js ''callbacks''" "Arr xs"] by simp
  then have "is_json (Arr ys)"
    using is_json_new_record [OF r, of e]
    by (auto simp: ys_def list_all_iff dest: in_set_takeD)
  then have j: "is_json db'"
    unfolding db'_def using kvs(3) by (rule is_json_obj_put [rotated])
  define st' where "st' = st\<lparr>db_file := Some (ser 0 db')\<rparr>"
  have w: "writeDb db' st = Inr st'" and rd: "readDb st' = Inr db'"
    unfolding st'_def using writeDb_readDb [OF j] by simp_all
  have "post_callback e req st = Inr (ok_response, st')"
    by (simp add: post_callback_def kvs(1) a w)
  moreover have "stored_callbacks st' = Some ys"
    by (simp add: stored_callbacks_def rd db'_def map_of_obj_put)
  ultimately show ?thesis unfolding ys_def by blast
qed

lemma stored_callbacks_no_file: "stored_callbacks \<lparr>db_file = None\<rparr> = Some []"
  by (simp add: stored_callbacks_def readDb_eq empty_doc_def)

















section \<open>The record of a callback\<close>

text \<open>
  Claim C6, as the code has it. The record built for an accepted POST has the id
  \<^verbatim>\<open>{Date.now()}_{Math.random().toString(16).slice(2)}\<close>, the ISO timestamp of the
  request, and the body as payload. The operator \<^verbatim>\<open>||\<close> skips every falsy value, so an
  \<^verbatim>\<open>x-forwarded-for\<close> or \<^verbatim>\<open>user-agent\<close> header that is present but empty counts as absent:
  \<^verbatim>\<open>ip\<close> is the first non-empty one of the header and the socket address, else
  \<^verbatim>\<open>null\<close>; \<^verbatim>\<open>userAgent\<close> is the header when non-empty, else \<^verbatim>\<open>null\<close>; the payload is
  the body when it is truthy (every object and array is) and \<^verbatim>\<open>{}\<close> otherwise.
\<close>

theorem new_record_fields:
  "new_record e req =
     Obj [(js ''id'', Str (digits (clock_ms e) @ js ''_'' @ drop 2 (random16 e))),
          (js ''receivedAt'', Str (clock_iso e)),
          (js ''ip'',
             (case headers req (js ''x-forwarded-for'') of
                Some (c # cs) \<Rightarrow> Str (c # cs)
              | _ \<Rightarrow> (case remoteAddress req of Some (c # cs) \<Rightarrow> Str (c # cs) | _ \<Rightarrow> Null))),
          (js ''userAgent'',
             (case headers req (js ''user-agent'') of Some (c # cs) \<Rightarrow> Str (c # cs) | _ \<Rightarrow> Null)),
          (js ''payload'', (if truthy (body req) then body req else Obj []))]"
  by (simp add: new_record_def new_id_def js_or_def header_def socket_address_def
      split: option.splits list.splits)

text \<open>
  The claim as stated makes \<^verbatim>\<open>ip\<close> the \<^verbatim>\<open>x-forwarded-for\<close> header whenever it is present.
  With the header present and empty, \<^verbatim>\<open>ip\<close> is the socket address instead.
\<close>

theorem new_record_empty_forwarded_for:
  "headers \<lparr>query_token = Undefined, headers = [js ''x-forwarded-for'' \<mapsto> []],
             remoteAddress = Some (js ''10.0.0.7''), body = Obj [], params_id = []\<rparr>
     (js ''x-forwarded-for'') = Some [] \<and>
   get_prop
     (new_record \<lparr>clock_iso = js ''2024-05-01T10:00:00.000Z'', clock_ms = 1714557600000,
                   random16 = js ''0.8f3a''\<rparr>
        \<lparr>query_token = Undefined, headers = [js ''x-forwarded-for'' \<mapsto> []],
          remoteAddress = Some (js ''10.0.0.7''), body = Obj [], params_id = []\<rparr>)
     (js ''ip'') = Inr (Str (js ''10.0.0.7'')) \<and>
   Str (js ''10.0.0.7'') \<noteq> Str []"
  by (simp add: new_record_def js_or_def header_def socket_address_def js_def)

section \<open>The dashboard\<close>

lemma dashboard_eq:
  assumes "stored_callbacks st = Some xs"
  shows "dashboard st =
     (case render_rows (take 50 xs) of
        Inl err \<Rightarrow> Inl err
      | Inr rows \<Rightarrow> Inr (\<lparr>status = 200, sent = Html (page (join [10] rows))\<rparr>, st))"
proof -
  obtain kvs where "readDb st = Inr (Obj kvs)" "map_of kvs (js ''callbacks'') = Some (Arr xs)"
    using stored_callbacks_Some [OF assms] by blast
  then show ?thesis by (simp add: dashboard_def)
qed

lemma render_rows_length: "render_rows xs = Inr rows \<Longrightarrow> length rows = length xs"
  by (induction xs arbitrary: rows) (auto split: sum.splits)

lemma render_rows_nth:
  "render_rows xs = Inr rows \<Longrightarrow> k < length xs \<Longrightarrow> render_row (xs ! k) = Inr (rows ! k)"
proof (induction xs arbitrary: rows k)
  case Nil
  then show ?case by simp
next
  case (Cons c cs)
  then obtain row rest where r: "render_row c = Inr row" "render_rows cs = Inr rest" "rows = row # rest"
    by (auto split: sum.splits)
  show ?case
  proof (cases k)
    case 0
    with r show ?thesis by simp
  next
    case (Suc j)
    with Cons.prems(2) have "j < length cs" by simp
    with Cons.IH [OF r(2)] r(3) Suc show ?thesis by simp
  qed
qed

text \<open>
  The route needs no token, whatever is configured, and shows the first 50 records at
  most, when the store holds a list whose first 50 records can be rendered.
\<close>

lemma dashboard_needs_no_token:
  assumes "stored_callbacks st = Some xs" and "render_rows (take 50 xs) = Inr rows"
  shows "serve token e GET_root req st =
           Inr (\<lparr>status = 200, sent = Html (page (join [10] rows))\<rparr>, st)"
    and "length rows = min 50 (length xs)"
    and "k < length rows \<Longrightarrow> render_row (xs ! k) = Inr (rows ! k)"
proof -
  show "serve token e GET_root req st =
           Inr (\<lparr>status = 200, sent = Html (page (join [10] rows))\<rparr>, st)"
    by (simp add: dashboard_eq [OF assms(1)] assms(2))
  show l: "length rows = min 50 (length xs)"
    using render_rows_length [OF assms(2)] by (simp add: min.commute)
  show "render_row (xs ! k) = Inr (rows ! k)" if "k < length rows"
    using render_rows_nth [OF assms(2), of k] that l by simp
qed

text \<open>
  Claim C8. \<^verbatim>\<open>GET /\<close> is to succeed with status 200 and an HTML page for every
  configuration. The handler converts the displayed fields to strings outside any
  \<^verbatim>\<open>try\<close> (the console line of the POST handler probes the same fields inside one), and
  the conversion of an object that has an own property \<^verbatim>\<open>toString\<close> throws. A server
  without token accepts the callback \<^verbatim>\<open>{"msg": {"toString": 1}}\<close> with 200, and from then
  on \<^verbatim>\<open>GET /\<close> throws a TypeError, whatever the token and the request.
\<close>

theorem dashboard_poisoned:
  "\<exists>st'. serve [] e POST_suno_callback
            \<lparr>query_token = Undefined, headers = Map.empty, remoteAddress = None,
              body = Obj [(js ''msg'', Obj [(js ''toString'', Num 1)])], params_id = []\<rparr>
            \<lparr>db_file = None\<rparr> = Inr (ok_response, st') \<and>
         serve token e' GET_root req st' = Inl TypeError"
proof -
  let ?req = "\<lparr>query_token = Undefined, headers = Map.empty, remoteAddress = None,
              body = Obj [(js ''msg'', Obj [(js ''toString'', Num 1)])], params_id = []\<rparr>"
  have r: "request_ok ?req"
    by (simp add: request_ok_def js_def)
  obtain st' where p: "post_callback e ?req \<lparr>db_file = None\<rparr> = Inr (ok_response, st')"
    and s: "stored_callbacks st' = Some (take 500 (new_record e ?req # []))"
    using post_callback_effect [OF stored_callbacks_no_file r] by blast
  have "render_row (new_record e ?req) = Inl TypeError"
    by (simp add: render_row_def new_record_def row_status_def js_or_def js_def)
  then have "serve token e' GET_root req st' = Inl TypeError"
    using s by (simp add: dashboard_eq [of st' "[new_record e ?req]"])
  moreover have "serve [] e POST_suno_callback ?req \<lparr>db_file = None\<rparr> = Inr (ok_response, st')"
    using p by (simp add: guarded_def checkAuth_def)
  ultimately show ?thesis by blast
qed




end
